theory Spec2Isabelle
  imports Complex_Main
begin

section \<open>Data model\<close>

text \<open>
  A pandas Series of floats is a list of optional reals: \<open>None\<close> is NaN (a missing value).
  Floats are idealised as reals; no claim below depends on rounding. A DataFrame is its
  number of rows (the length of the index) and its columns by name. Every operation is
  positional: the dates of the index are carried along unchanged, so a date is the position
  of its row.
\<close>

type_synonym series = "real option list"

record frame =
  nrows :: nat
  columns :: "string \<rightharpoonup> series"

text \<open>Every column of a DataFrame has one value per row of the index.\<close>

definition wf_frame :: "frame \<Rightarrow> bool" where
  "wf_frame df = (\<forall>c s. columns df c = Some s \<longrightarrow> length s = nrows df)"

definition frame_of :: "nat \<Rightarrow> (string \<times> series) list \<Rightarrow> frame" where
  "frame_of n cs = \<lparr>nrows = n, columns = map_of cs\<rparr>"

datatype error = KeyError string

text \<open>\<open>df[c]\<close> raises KeyError when the frame has no column \<open>c\<close>.\<close>

definition getitem :: "frame \<Rightarrow> string \<Rightarrow> error + series" where
  "getitem df c = (case columns df c of None \<Rightarrow> Inl (KeyError c) | Some s \<Rightarrow> Inr s)"

definition bind :: "error + 'a \<Rightarrow> ('a \<Rightarrow> error + 'b) \<Rightarrow> error + 'b" where
  "bind m f = (case m of Inl e \<Rightarrow> Inl e | Inr x \<Rightarrow> f x)"

subsection \<open>Element-wise comparisons and boolean masks\<close>

text \<open>A comparison with NaN is False, on either side of every operator.\<close>

definition gt :: "series \<Rightarrow> real \<Rightarrow> bool list" where
  "gt s c = map (\<lambda>v. case v of None \<Rightarrow> False | Some x \<Rightarrow> x > c) s"

definition lt :: "series \<Rightarrow> real \<Rightarrow> bool list" where
  "lt s c = map (\<lambda>v. case v of None \<Rightarrow> False | Some x \<Rightarrow> x < c) s"

definition ge :: "series \<Rightarrow> real \<Rightarrow> bool list" where
  "ge s c = map (\<lambda>v. case v of None \<Rightarrow> False | Some x \<Rightarrow> x \<ge> c) s"

definition le :: "series \<Rightarrow> real \<Rightarrow> bool list" where
  "le s c = map (\<lambda>v. case v of None \<Rightarrow> False | Some x \<Rightarrow> x \<le> c) s"

definition abs_series :: "series \<Rightarrow> series" where
  "abs_series s = map (map_option abs) s"

definition and_mask :: "bool list \<Rightarrow> bool list \<Rightarrow> bool list" where
  "and_mask a b = map2 (\<and>) a b"

definition or_mask :: "bool list \<Rightarrow> bool list \<Rightarrow> bool list" where
  "or_mask a b = map2 (\<or>) a b"

definition not_mask :: "bool list \<Rightarrow> bool list" where
  "not_mask a = map Not a"

text \<open>\<open>regime.loc[mask] = label\<close>: the rows where the mask holds take the label.\<close>

definition assign :: "bool list \<Rightarrow> string \<Rightarrow> string option list \<Rightarrow> string option list" where
  "assign msk label regime = map2 (\<lambda>m r. if m then Some label else r) msk regime"

text \<open>\<open>s.shift(1, fill_value=False)\<close> on a boolean series.\<close>

definition shift1_False :: "bool list \<Rightarrow> bool list" where
  "shift1_False a = take (length a) (False # a)"

definition fillna :: "string \<Rightarrow> string option list \<Rightarrow> string option list" where
  "fillna v regime = map (\<lambda>r. case r of None \<Rightarrow> Some v | Some x \<Rightarrow> Some x) regime"

definition eq_label :: "string option list \<Rightarrow> string \<Rightarrow> bool list" where
  "eq_label regime label = map (\<lambda>r. r = Some label) regime"

section \<open>The feature pipeline (features.py)\<close>

subsection \<open>Series operations\<close>

text \<open>
  \<open>s.shift(k)\<close> moves the values \<open>k\<close> rows down (up when \<open>k\<close> is negative) and fills
  the vacated rows with NaN; the length is unchanged.
\<close>

definition shift :: "int \<Rightarrow> 'a option list \<Rightarrow> 'a option list" where
  "shift k xs =
     (if 0 \<le> k then take (length xs) (replicate (nat k) None @ xs)
      else drop (nat (- k)) xs @ replicate (min (nat (- k)) (length xs)) None)"

text \<open>
  \<open>s.ffill(limit=cap)\<close>: a NaN takes the last valid value before it, for at most \<open>cap\<close>
  consecutive NaN rows after that value. The state is the last valid value with the number
  of NaN rows passed since. pandas rejects a limit below 1 by raising ValueError, so the
  model is meant for \<open>0 < cap\<close>.
\<close>

fun ffill_from :: "nat \<Rightarrow> ('a \<times> nat) option \<Rightarrow> 'a option list \<Rightarrow> 'a option list" where
  "ffill_from cap st [] = []"
| "ffill_from cap st (Some v # xs) = Some v # ffill_from cap (Some (v, 0)) xs"
| "ffill_from cap None (None # xs) = None # ffill_from cap None xs"
| "ffill_from cap (Some (v, c)) (None # xs) =
     (if c < cap then Some v else None) # ffill_from cap (Some (v, Suc c)) xs"

definition ffill :: "nat \<Rightarrow> 'a option list \<Rightarrow> 'a option list" where
  "ffill cap xs = ffill_from cap None xs"

text \<open>Arithmetic on two series: NaN on either side gives NaN.\<close>

definition sub_series :: "series \<Rightarrow> series \<Rightarrow> series" where
  "sub_series a b =
     map2 (\<lambda>x y. case (x, y) of (Some u, Some v) \<Rightarrow> Some (u - v) | _ \<Rightarrow> None) a b"

text \<open>
  The divisor of \<open>zscore_rolling\<close> is never 0 (zeros are replaced by NaN first); the model
  of the division gives NaN there, having no infinities.
\<close>

definition div_series :: "series \<Rightarrow> series \<Rightarrow> series" where
  "div_series a b =
     map2 (\<lambda>x y. case (x, y) of (Some u, Some v) \<Rightarrow> (if v = 0 then None else Some (u / v))
                   | _ \<Rightarrow> None) a b"

fun valid :: "'a option list \<Rightarrow> 'a list" where
  "valid [] = []"
| "valid (None # xs) = valid xs"
| "valid (Some v # xs) = v # valid xs"

text \<open>
  \<open>x.rolling(window, min_periods)\<close> at row \<open>i\<close> sees the valid values among the last
  \<open>window\<close> rows up to and including row \<open>i\<close>. The mean needs at least \<open>min_periods\<close> of
  them and at least one; the standard deviation (sample, one degree of freedom removed)
  needs at least \<open>min_periods\<close> and at least two.
\<close>

definition window_values :: "nat \<Rightarrow> series \<Rightarrow> nat \<Rightarrow> real list" where
  "window_values window xs i = valid (drop (Suc i - window) (take (Suc i) xs))"

definition mean :: "real list \<Rightarrow> real" where
  "mean vs = sum_list vs / real (length vs)"

definition std :: "real list \<Rightarrow> real" where
  "std vs = sqrt (sum_list (map (\<lambda>v. (v - mean vs)\<^sup>2) vs) / real (length vs - 1))"

definition rolling_mean :: "nat \<Rightarrow> nat \<Rightarrow> series \<Rightarrow> series" where
  "rolling_mean window min_periods xs =
     map (\<lambda>i. let vs = window_values window xs i in
               if min_periods \<le> length vs \<and> 0 < length vs then Some (mean vs) else None)
       [0..<length xs]"

definition rolling_std :: "nat \<Rightarrow> nat \<Rightarrow> series \<Rightarrow> series" where
  "rolling_std window min_periods xs =
     map (\<lambda>i. let vs = window_values window xs i in
               if min_periods \<le> length vs \<and> 1 < length vs then Some (std vs) else None)
       [0..<length xs]"

definition zscore_rolling :: "series \<Rightarrow> nat \<Rightarrow> nat \<Rightarrow> series" where
  "zscore_rolling x window min_periods =
     (let mu = rolling_mean window min_periods x;
          sd = rolling_std window min_periods x;
          sd = map (\<lambda>v. if v = Some 0 then None else v) sd
      in div_series (sub_series x mu) sd)"

subsection \<open>Frame operations\<close>

definition setitem :: "frame \<Rightarrow> string \<Rightarrow> series \<Rightarrow> frame" where
  "setitem df c s = df\<lparr>columns := (columns df)(c \<mapsto> s)\<rparr>"

definition shift_frame :: "int \<Rightarrow> frame \<Rightarrow> frame" where
  "shift_frame k df = df\<lparr>columns := (\<lambda>c. map_option (shift k) (columns df c))\<rparr>"

definition ffill_frame :: "nat \<Rightarrow> frame \<Rightarrow> frame" where
  "ffill_frame cap df = df\<lparr>columns := (\<lambda>c. map_option (ffill cap) (columns df c))\<rparr>"

text \<open>
  \<open>(cond).astype("float")\<close>: a boolean series as 1.0 and 0.0. The comparison has already
  turned NaN into False, so the result holds no NaN.
\<close>

definition astype_float :: "bool list \<Rightarrow> series" where
  "astype_float bs = map (\<lambda>b. Some (if b then 1 else 0)) bs"

text \<open>
  \<open>pd.concat(signals, axis=1).sum(axis=1, min_count=k)\<close>: per row, the sum of the valid
  entries, or NaN when fewer than \<open>k\<close> entries are valid.
\<close>

definition sum_rows :: "nat \<Rightarrow> nat \<Rightarrow> series list \<Rightarrow> series" where
  "sum_rows n min_count sigs =
     map (\<lambda>i. let vs = valid (map (\<lambda>s. s ! i) sigs) in
               if min_count \<le> length vs then Some (sum_list vs) else None)
       [0..<n]"

subsection \<open>The steps of \<open>build_features\<close>\<close>

text \<open>Step 2, the yield curve.\<close>

definition add_curve :: "nat \<Rightarrow> nat \<Rightarrow> frame \<Rightarrow> frame" where
  "add_curve days_1y min_1y df =
     (case columns df ''ust_10y'' of None \<Rightarrow> df
      | Some ust_10y \<Rightarrow>
         (case columns df ''ust_2y'' of None \<Rightarrow> df
          | Some ust_2y \<Rightarrow>
              let curve_10y2y = sub_series ust_10y ust_2y;
                  df = setitem df ''curve_10y2y'' curve_10y2y
              in setitem df ''curve_z_1y'' (zscore_rolling curve_10y2y days_1y min_1y)))"

text \<open>Step 3, one round of the loop over the two rate columns.\<close>

definition add_chg_1m :: "int \<Rightarrow> string \<Rightarrow> frame \<Rightarrow> frame" where
  "add_chg_1m days_1m col df =
     (case columns df col of None \<Rightarrow> df
      | Some s \<Rightarrow> setitem df (col @ ''_chg_1m'') (sub_series s (shift days_1m s)))"

text \<open>Step 4, credit stress.\<close>

definition add_credit :: "int \<Rightarrow> nat \<Rightarrow> nat \<Rightarrow> frame \<Rightarrow> frame" where
  "add_credit days_1m days_1y min_1y df =
     (case columns df ''baa_10y_spread'' of None \<Rightarrow> df
      | Some baa_10y_spread \<Rightarrow>
          let df = setitem df ''credit_level'' baa_10y_spread;
              df = setitem df ''credit_chg_1m''
                     (sub_series baa_10y_spread (shift days_1m baa_10y_spread))
          in setitem df ''credit_z_1y'' (zscore_rolling baa_10y_spread days_1y min_1y))"

text \<open>Step 5, volatility.\<close>

definition add_vix :: "int \<Rightarrow> nat \<Rightarrow> nat \<Rightarrow> frame \<Rightarrow> frame" where
  "add_vix days_1m days_1y min_1y df =
     (case columns df ''vix'' of None \<Rightarrow> df
      | Some vix \<Rightarrow>
          let df = setitem df ''vix_level'' vix;
              df = setitem df ''vix_chg_1m'' (sub_series vix (shift days_1m vix))
          in setitem df ''vix_z_1y'' (zscore_rolling vix days_1y min_1y))"

text \<open>Step 6, the list \<open>signals\<close> and the score.\<close>

definition signals :: "frame \<Rightarrow> series list" where
  "signals df =
     (case columns df ''curve_10y2y'' of None \<Rightarrow> [] | Some s \<Rightarrow> [astype_float (lt s 0)])
     @ (case columns df ''credit_chg_1m'' of None \<Rightarrow> [] | Some s \<Rightarrow> [astype_float (gt s 0)])
     @ (case columns df ''vix_chg_1m'' of None \<Rightarrow> [] | Some s \<Rightarrow> [astype_float (gt s 0)])"

definition add_score :: "frame \<Rightarrow> frame" where
  "add_score df =
     (let sigs = signals df in
      if sigs \<noteq> [] then setitem df ''risk_off_score'' (sum_rows (nrows df) (length sigs) sigs)
      else df)"

text \<open>
  \<open>build_features\<close>. \<open>lag_days\<close> and \<open>days_1m\<close> are shift distances, any integers;
  \<open>days_1y\<close> is a window length and \<open>fill_days\<close> a fill limit, which pandas accepts only
  from 0 and from 1 upwards. \<open>min_1y = int(days_1y * 0.8)\<close> is four fifths of the window,
  rounded down. Writing the CSV file is not modelled.
\<close>

definition build_features :: "frame \<Rightarrow> int \<Rightarrow> int \<Rightarrow> nat \<Rightarrow> nat \<Rightarrow> frame" where
  "build_features macro lag_days days_1m days_1y fill_days =
     (let min_1y = days_1y * 4 div 5;
          df = shift_frame lag_days macro;
          df = ffill_frame fill_days df;
          df = add_curve days_1y min_1y df;
          df = add_chg_1m days_1m ''ust_10y'' df;
          df = add_chg_1m days_1m ''ust_2y'' df;
          df = add_credit days_1m days_1y min_1y df;
          df = add_vix days_1m days_1y min_1y df
      in add_score df)"

text \<open>
  Two days of raw data with an inverted curve on both. With the default lag of one row,
  row 0 of every lagged column is NaN.
\<close>

definition two_raw_days :: frame where
  "two_raw_days = frame_of 2 [(''ust_10y'', [Some 4, Some 4]), (''ust_2y'', [Some 5, Some 5]),
     (''baa_10y_spread'', [Some 2, Some 2]), (''vix'', [Some 18, Some 19])]"

subsection \<open>Rows and prefixes of a frame\<close>

text \<open>The feature row at position \<open>t\<close>: the value of every column there.\<close>

definition row_at :: "frame \<Rightarrow> nat \<Rightarrow> string \<Rightarrow> real option option" where
  "row_at df t = (\<lambda>c. map_option (\<lambda>s. s ! t) (columns df c))"

text \<open>The first \<open>m\<close> rows of a frame.\<close>

definition head_rows :: "nat \<Rightarrow> frame \<Rightarrow> frame" where
  "head_rows m df =
     \<lparr>nrows = min m (nrows df), columns = (\<lambda>c. map_option (take m) (columns df c))\<rparr>"

text \<open>Two raw tables of three days that differ on the last day only.\<close>

definition raw_a :: frame where
  "raw_a = frame_of 3 [(''ust_10y'', [Some 4, Some 5, Some 6]),
     (''ust_2y'', [Some 3, Some 3, Some 3]), (''baa_10y_spread'', [Some 2, None, Some 2]),
     (''vix'', [Some 18, Some 19, Some 20])]"

definition raw_b :: frame where
  "raw_b = frame_of 3 [(''ust_10y'', [Some 4, Some 5, Some 1]),
     (''ust_2y'', [Some 3, Some 3, Some 9]), (''baa_10y_spread'', [Some 2, None, None]),
     (''vix'', [Some 18, Some 19, Some 45])]"

section \<open>The rule-based regime classifier (regimes.py)\<close>

definition REGIME_ORDER :: "string list" where
  "REGIME_ORDER = [''Risk-off / crisis'', ''Policy pivot'', ''Late-cycle'',
     ''Risk-on / expansion'', ''Transition'']"

definition rate_move :: real where "rate_move = 10 / 100"
definition credit_widen :: real where "credit_widen = 10 / 100"
definition credit_stable :: real where "credit_stable = 5 / 100"
definition vix_low :: real where "vix_low = 15"
definition vix_elevated :: real where "vix_elevated = 20"
definition vix_spike :: real where "vix_spike = 5"

definition required :: "string list" where
  "required = [''ust_2y_chg_1m'', ''ust_10y_chg_1m'', ''curve_10y2y'', ''credit_chg_1m'',
     ''vix_level'', ''vix_chg_1m'']"

subsection \<open>Primitive signals\<close>

text \<open>
  Each definition is the local variable of that name in \<open>rule_based_regime\<close>, as a function
  of the columns it reads. \<open>rates_falling\<close> (lines 55 to 58) is computed by the source and
  read by no regime definition: it is left out.
\<close>

definition rates_rising :: "series \<Rightarrow> series \<Rightarrow> bool list" where
  "rates_rising ust_2y_chg_1m ust_10y_chg_1m =
     and_mask (gt ust_2y_chg_1m rate_move) (gt ust_10y_chg_1m rate_move)"

definition curve_inverted :: "series \<Rightarrow> bool list" where
  "curve_inverted curve_10y2y = lt curve_10y2y 0"

definition curve_flat_or_down :: "series \<Rightarrow> bool list" where
  "curve_flat_or_down ust_10y_chg_1m = le ust_10y_chg_1m 0"

definition credit_widening :: "series \<Rightarrow> series \<Rightarrow> bool list" where
  "credit_widening credit_chg_1m credit_z_1y =
     and_mask (gt credit_chg_1m credit_widen) (gt credit_z_1y 1)"

definition credit_tightening :: "series \<Rightarrow> bool list" where
  "credit_tightening credit_chg_1m = lt credit_chg_1m (- credit_stable)"

definition credit_stable_cond :: "series \<Rightarrow> bool list" where
  "credit_stable_cond credit_chg_1m = lt (abs_series credit_chg_1m) credit_stable"

definition vix_low_cond :: "series \<Rightarrow> bool list" where
  "vix_low_cond vix_level = lt vix_level vix_low"

definition vix_elev :: "series \<Rightarrow> bool list" where
  "vix_elev vix_level = ge vix_level vix_elevated"

definition vix_spiking :: "series \<Rightarrow> bool list" where
  "vix_spiking vix_chg_1m = gt vix_chg_1m vix_spike"

subsection \<open>Regime definitions\<close>

definition crisis :: "series \<Rightarrow> series \<Rightarrow> series \<Rightarrow> series \<Rightarrow> bool list" where
  "crisis credit_chg_1m credit_z_1y vix_chg_1m risk_off_score =
     and_mask (and_mask (credit_widening credit_chg_1m credit_z_1y) (vix_spiking vix_chg_1m))
       (or_mask (ge risk_off_score 2) (gt credit_z_1y (15 / 10)))"

definition pivot :: "series \<Rightarrow> series \<Rightarrow> series \<Rightarrow> series \<Rightarrow> bool list" where
  "pivot ust_2y_chg_1m ust_10y_chg_1m vix_level vix_chg_1m =
     and_mask (and_mask (and_mask (lt ust_2y_chg_1m (- rate_move))
       (curve_flat_or_down ust_10y_chg_1m)) (vix_elev vix_level))
       (not_mask (vix_spiking vix_chg_1m))"

definition late_cycle :: "series \<Rightarrow> series \<Rightarrow> series \<Rightarrow> bool list" where
  "late_cycle curve_10y2y credit_chg_1m vix_level =
     and_mask (and_mask (curve_inverted curve_10y2y) (credit_stable_cond credit_chg_1m))
       (vix_low_cond vix_level)"

definition expansion :: "series \<Rightarrow> series \<Rightarrow> series \<Rightarrow> series \<Rightarrow> bool list" where
  "expansion ust_2y_chg_1m ust_10y_chg_1m credit_chg_1m vix_level =
     and_mask (and_mask (rates_rising ust_2y_chg_1m ust_10y_chg_1m)
       (credit_tightening credit_chg_1m)) (vix_low_cond vix_level)"

definition exit_crisis :: "series \<Rightarrow> series \<Rightarrow> bool list" where
  "exit_crisis credit_z_1y vix_level =
     and_mask (lt credit_z_1y (5 / 10)) (lt vix_level vix_elevated)"

subsection \<open>The classifier\<close>

text \<open>
  The function body, in the order of the source: the guard on \<open>required\<close>, the column
  reads, the four assignments from the weakest to the strongest regime, the score override,
  the persistence step and the final fill. The six required columns are read after the
  guard; \<open>credit_z_1y\<close> and \<open>risk_off_score\<close> are read with no guard (lines 66 and 84), so
  their absence is a KeyError. The persistence step reads \<open>crisis_active\<close>, the labels as
  they stand after the override, shifted by one row: one vectorised assignment, not a loop.
  Writing the CSV file is not modelled.
\<close>

definition rule_based_regime :: "frame \<Rightarrow> error + string option list" where
  "rule_based_regime df =
    (let regime = replicate (nrows df) None in
     if \<not> list_all (\<lambda>c. c \<in> dom (columns df)) required
     then Inr (fillna ''Transition'' regime)
     else
       bind (getitem df ''ust_2y_chg_1m'') (\<lambda>ust_2y_chg_1m.
       bind (getitem df ''ust_10y_chg_1m'') (\<lambda>ust_10y_chg_1m.
       bind (getitem df ''curve_10y2y'') (\<lambda>curve_10y2y.
       bind (getitem df ''credit_chg_1m'') (\<lambda>credit_chg_1m.
       bind (getitem df ''credit_z_1y'') (\<lambda>credit_z_1y.
       bind (getitem df ''vix_level'') (\<lambda>vix_level.
       bind (getitem df ''vix_chg_1m'') (\<lambda>vix_chg_1m.
       bind (getitem df ''risk_off_score'') (\<lambda>risk_off_score.
       let regime = assign (expansion ust_2y_chg_1m ust_10y_chg_1m credit_chg_1m vix_level)
                      ''Risk-on / expansion'' regime;
           regime = assign (late_cycle curve_10y2y credit_chg_1m vix_level)
                      ''Late-cycle'' regime;
           regime = assign (pivot ust_2y_chg_1m ust_10y_chg_1m vix_level vix_chg_1m)
                      ''Policy pivot'' regime;
           regime = assign (crisis credit_chg_1m credit_z_1y vix_chg_1m risk_off_score)
                      ''Risk-off / crisis'' regime;
           regime = (if ''risk_off_score'' \<in> dom (columns df)
                     then assign (ge risk_off_score 3) ''Risk-off / crisis'' regime
                     else regime);
           crisis_active = eq_label regime ''Risk-off / crisis'';
           regime = assign (and_mask (shift1_False crisis_active)
                              (not_mask (exit_crisis credit_z_1y vix_level)))
                      ''Risk-off / crisis'' regime
       in Inr (fillna ''Transition'' regime))))))))))"


subsection \<open>Example feature tables\<close>

text \<open>Six required columns and nothing else; then the same with \<open>credit_z_1y\<close> only.\<close>

definition required_only :: frame where
  "required_only = frame_of 1 [(''ust_2y_chg_1m'', [Some 0]), (''ust_10y_chg_1m'', [Some 0]),
     (''curve_10y2y'', [Some 1]), (''credit_chg_1m'', [Some 0]), (''vix_level'', [Some 18]),
     (''vix_chg_1m'', [Some 0])]"

definition required_and_z :: frame where
  "required_and_z = frame_of 1 [(''ust_2y_chg_1m'', [Some 0]), (''ust_10y_chg_1m'', [Some 0]),
     (''curve_10y2y'', [Some 1]), (''credit_chg_1m'', [Some 0]), (''credit_z_1y'', [Some 0]),
     (''vix_level'', [Some 18]), (''vix_chg_1m'', [Some 0])]"

text \<open>
  Three days. Day 0 meets the crisis definition (credit change 0.2, z-score 2, volatility
  change 6, score 2). Days 1 and 2 meet no regime definition and no override, and the exit
  condition fails on both (z-score 1, volatility level 30).
\<close>

definition carry_run :: frame where
  "carry_run = frame_of 3 [
     (''ust_2y_chg_1m'', [Some 0, Some 0, Some 0]),
     (''ust_10y_chg_1m'', [Some (5 / 100), Some (5 / 100), Some (5 / 100)]),
     (''curve_10y2y'', [Some 1, Some 1, Some 1]),
     (''credit_chg_1m'', [Some (2 / 10), Some 0, Some 0]),
     (''credit_z_1y'', [Some 2, Some 1, Some 1]),
     (''vix_level'', [Some 30, Some 30, Some 30]),
     (''vix_chg_1m'', [Some 6, Some 0, Some 0]),
     (''risk_off_score'', [Some 2, Some 0, Some 0])]"

text \<open>The same three days with the credit z-score missing on days 1 and 2.\<close>

definition missing_exit_run :: frame where
  "missing_exit_run = frame_of 3 [
     (''ust_2y_chg_1m'', [Some 0, Some 0, Some 0]),
     (''ust_10y_chg_1m'', [Some (5 / 100), Some (5 / 100), Some (5 / 100)]),
     (''curve_10y2y'', [Some 1, Some 1, Some 1]),
     (''credit_chg_1m'', [Some (2 / 10), Some 0, Some 0]),
     (''credit_z_1y'', [Some 2, None, None]),
     (''vix_level'', [Some 30, Some 30, Some 30]),
     (''vix_chg_1m'', [Some 6, Some 0, Some 0]),
     (''risk_off_score'', [Some 2, Some 0, Some 0])]"

text \<open>
  One day with the six required columns and a composite score of 3, without
  \<open>credit_z_1y\<close>.
\<close>

definition score_without_z :: frame where
  "score_without_z = frame_of 1 [(''ust_2y_chg_1m'', [Some 0]),
     (''ust_10y_chg_1m'', [Some (5 / 100)]), (''curve_10y2y'', [Some 1]),
     (''credit_chg_1m'', [Some 0]), (''vix_level'', [Some 18]),
     (''vix_chg_1m'', [Some 0]), (''risk_off_score'', [Some 3])]"

text \<open>One day with composite score 3 on which no regime definition holds.\<close>

definition override_day :: frame where
  "override_day = frame_of 1 [(''ust_2y_chg_1m'', [Some 0]),
     (''ust_10y_chg_1m'', [Some (5 / 100)]), (''curve_10y2y'', [Some 1]),
     (''credit_chg_1m'', [Some 0]), (''credit_z_1y'', [Some 0]), (''vix_level'', [Some 18]),
     (''vix_chg_1m'', [Some 0]), (''risk_off_score'', [Some 3])]"

text \<open>
  Two days: the expansion scenario of the specification (front-end change 0.15, long-end
  change 0.12, credit change -0.08, volatility level 8), then an inverted curve with stable
  credit and low volatility.
\<close>

definition calm_days :: frame where
  "calm_days = frame_of 2 [
     (''ust_2y_chg_1m'', [Some (15 / 100), Some 0]),
     (''ust_10y_chg_1m'', [Some (12 / 100), Some 0]),
     (''curve_10y2y'', [Some 1, Some (- 1 / 2)]),
     (''credit_chg_1m'', [Some (- 8 / 100), Some (1 / 100)]),
     (''credit_z_1y'', [Some 0, Some 0]),
     (''vix_level'', [Some 8, Some 12]),
     (''vix_chg_1m'', [Some 0, Some 0]),
     (''risk_off_score'', [Some 0, Some 1])]"

section \<open>Regime and stress analytics (analytics.py)\<close>

text \<open>
  A label series is a list of dated entries, \<open>None\<close> for a missing label (None or NaN);
  a date is a day number. \<open>_normalize_regime\<close> raises ValueError for an input that is None
  or whose index is not a DatetimeIndex: such inputs are outside the type of the model.
\<close>

type_synonym date = int

type_synonym label_series = "(date \<times> string option) list"

definition normalize_regime :: "label_series \<Rightarrow> (date \<times> string) list" where
  "normalize_regime regimes =
     map (\<lambda>(d, l). (d, case l of None \<Rightarrow> ''Transition'' | Some x \<Rightarrow> x)) regimes"

subsection \<open>Distribution\<close>

text \<open>
  \<open>value_counts\<close>: the distinct values with their number of occurrences, the most frequent
  first (ties in the order of first occurrence).
\<close>

definition first_occurrences :: "'a list \<Rightarrow> 'a list" where
  "first_occurrences xs = rev (remdups (rev xs))"

definition value_counts :: "string list \<Rightarrow> (string \<times> nat) list" where
  "value_counts xs =
     sort_key (\<lambda>p. - int (snd p)) (map (\<lambda>x. (x, count_list xs x)) (first_occurrences xs))"

text \<open>
  \<open>_ordered_regime_index\<close>: the categories are the labels of \<open>REGIME_ORDER\<close> that occur in
  the index, in that order; an index value outside the categories becomes NaN (\<open>None\<close>).
\<close>

definition regime_categories :: "string list \<Rightarrow> string list" where
  "regime_categories idx = filter (\<lambda>r. r \<in> set idx) REGIME_ORDER"

definition ordered_regime_index :: "string list \<Rightarrow> string option list" where
  "ordered_regime_index idx =
     (let cats = regime_categories idx in map (\<lambda>x. if x \<in> set cats then Some x else None) idx)"

text \<open>
  The code of an index value of an ordered categorical: its position among the categories,
  and -1 for NaN.
\<close>

fun index_of :: "'a list \<Rightarrow> 'a \<Rightarrow> nat" where
  "index_of [] x = 0"
| "index_of (y # ys) x = (if x = y then 0 else Suc (index_of ys x))"

definition codes :: "string list \<Rightarrow> string option \<Rightarrow> int" where
  "codes cats v = (case v of None \<Rightarrow> - 1 | Some x \<Rightarrow> int (index_of cats x))"

text \<open>The key of the sort itself: the position among the categories, NaN after all of them.\<close>

definition category_code :: "string list \<Rightarrow> string option \<Rightarrow> nat" where
  "category_code cats v = (case v of None \<Rightarrow> length cats | Some x \<Rightarrow> index_of cats x)"

text \<open>
  \<open>sort_index\<close> on a categorical index: a table whose codes are already non-decreasing is
  returned as it is (so NaN rows in front stay in front); any other table is sorted by
  category with the NaN rows last, in their order of appearance.
\<close>

definition sort_index ::
  "string list \<Rightarrow> (string option \<times> nat) list \<Rightarrow> (string option \<times> nat) list" where
  "sort_index cats out =
     (if sorted (map (\<lambda>row. codes cats (fst row)) out) then out
      else sort_key (\<lambda>row. category_code cats (fst row)) out)"

text \<open>
  \<open>regime_distribution\<close>: one row (label, Days) per counted label. The column \<open>Share (%)\<close>
  (a rounded float), the \<open>total_days\<close> attribute and the CSV file are not modelled.
\<close>

definition regime_distribution :: "label_series \<Rightarrow> (string option \<times> nat) list" where
  "regime_distribution regimes =
     (let reg = normalize_regime regimes;
          counts = value_counts (map snd reg);
          idx = map fst counts;
          out = zip (ordered_regime_index idx) (map snd counts)
      in sort_index (regime_categories idx) out)"

subsection \<open>Stress-window scorecard\<close>

record window =
  win_episode :: string
  win_start :: date
  win_end :: date

text \<open>
  One entry of \<open>rows\<close>: the dictionary built for an episode. \<open>None\<close> is NaN or NaT. The
  share entries are present only for an episode with observations and a supplied score
  series: \<open>score_shares\<close> lists them by threshold.
\<close>

record scorecard_row =
  episode :: string
  start :: date
  end_date :: date
  n_obs :: nat
  crisis_share :: "real option"
  first_crisis_date :: "date option"
  max_crisis_run_days :: nat
  max_crisis_run_start :: "date option"
  max_crisis_run_end :: "date option"
  score_shares :: "(int \<times> real) list"

text \<open>\<open>(is_crisis != is_crisis.shift(1)).cumsum()\<close>: the first row differs from NaN.\<close>

fun change_points :: "bool list \<Rightarrow> bool list" where
  "change_points [] = []"
| "change_points (x # xs) = True # map2 (\<lambda>cur prev. cur \<noteq> prev) xs (x # xs)"

fun cumsum_from :: "nat \<Rightarrow> bool list \<Rightarrow> nat list" where
  "cumsum_from acc [] = []"
| "cumsum_from acc (b # bs) = (acc + (if b then 1 else 0)) # cumsum_from (acc + (if b then 1 else 0)) bs"

definition run_id :: "bool list \<Rightarrow> nat list" where
  "run_id is_crisis = cumsum_from 0 (change_points is_crisis)"

text \<open>\<open>s.groupby(keys)\<close>: one chunk per key, the keys ascending, the rows of a chunk in order.\<close>

definition groupby :: "nat list \<Rightarrow> 'a list \<Rightarrow> 'a list list" where
  "groupby keys rows =
     map (\<lambda>k. map snd (filter (\<lambda>p. fst p = k) (zip keys rows))) (sort (remdups keys))"

text \<open>
  The body of the loop over the chunks, on the state
  \<open>(max_run_days, max_run_start, max_run_end)\<close>: a chunk whose first value is False is
  skipped; a chunk replaces the state only when its number of days is strictly greater.
\<close>

definition run_step ::
  "(date \<times> bool) list \<Rightarrow> nat \<times> date option \<times> date option \<Rightarrow> nat \<times> date option \<times> date option"
where
  "run_step chunk st =
     (case chunk of [] \<Rightarrow> st
      | c # cs \<Rightarrow>
          if \<not> snd c then st
          else let days = length (filter snd chunk) in
               if days > fst st then (days, Some (fst c), Some (fst (last chunk))) else st)"

definition max_crisis_run :: "(date \<times> bool) list \<Rightarrow> nat \<times> date option \<times> date option" where
  "max_crisis_run is_crisis =
     fold run_step (groupby (run_id (map snd is_crisis)) is_crisis) (0, None, None)"

text \<open>The rows of the label series inside a window, and \<open>sub.eq(target)\<close> on them.\<close>

definition window_rows :: "(date \<times> 'a) list \<Rightarrow> window \<Rightarrow> (date \<times> 'a) list" where
  "window_rows reg w = filter (\<lambda>p. win_start w \<le> fst p \<and> fst p \<le> win_end w) reg"

definition is_crisis_in :: "label_series \<Rightarrow> window \<Rightarrow> string \<Rightarrow> (date \<times> bool) list" where
  "is_crisis_in regimes w target =
     map (\<lambda>(d, l). (d, l = target)) (window_rows (normalize_regime regimes) w)"

text \<open>
  The optional score series has a unique index: a finite map from dates to values. After
  \<open>reindex(reg.index)\<close> a date it lacks reads as NaN, like a NaN entry; a comparison with
  NaN is False.
\<close>

definition score_share :: "(date \<rightharpoonup> real) \<Rightarrow> date list \<Rightarrow> int \<Rightarrow> real" where
  "score_share ros dates st =
     real (length (filter (\<lambda>d. case ros d of None \<Rightarrow> False | Some v \<Rightarrow> v \<ge> real_of_int st) dates))
       / real (length dates)"

definition first_true :: "(date \<times> bool) list \<Rightarrow> date option" where
  "first_true is_crisis = (case filter snd is_crisis of [] \<Rightarrow> None | p # ps \<Rightarrow> Some (fst p))"

definition episode_row ::
  "label_series \<Rightarrow> string \<Rightarrow> (date \<rightharpoonup> real) option \<Rightarrow> int list \<Rightarrow> window \<Rightarrow> scorecard_row"
where
  "episode_row regimes target risk_off_score score_threshold w =
     (let is_crisis = is_crisis_in regimes w target;
          n = length is_crisis in
      if n = 0 then
        \<lparr>episode = win_episode w, start = win_start w, end_date = win_end w, n_obs = 0,
         crisis_share = None, first_crisis_date = None, max_crisis_run_days = 0,
         max_crisis_run_start = None, max_crisis_run_end = None, score_shares = []\<rparr>
      else
        let (max_run_days, max_run_start, max_run_end) = max_crisis_run is_crisis in
        \<lparr>episode = win_episode w, start = win_start w, end_date = win_end w, n_obs = n,
         crisis_share = Some (real (length (filter snd is_crisis)) / real n),
         first_crisis_date = first_true is_crisis,
         max_crisis_run_days = max_run_days,
         max_crisis_run_start = max_run_start, max_crisis_run_end = max_run_end,
         score_shares = (case risk_off_score of None \<Rightarrow> []
            | Some ros \<Rightarrow> map (\<lambda>st. (st, score_share ros (map fst is_crisis) st)) score_threshold)\<rparr>)"

text \<open>
  \<open>stress_window_scorecard\<close>: the list \<open>rows\<close>, one entry per window in order. This is the
  table written to \<open>stress_window_scorecard.csv\<close>; the frame the function returns keeps its
  columns except the two run dates (the list \<open>keep\<close>). Renaming the columns is not
  modelled. A \<open>windows\<close> argument that is not a frame with the three columns raises
  ValueError and is outside the type of the model.
\<close>

definition stress_window_scorecard ::
  "label_series \<Rightarrow> window list \<Rightarrow> string \<Rightarrow> (date \<rightharpoonup> real) option \<Rightarrow> int list \<Rightarrow> scorecard_row list"
where
  "stress_window_scorecard regimes windows target risk_off_score score_threshold =
     map (episode_row regimes target risk_off_score score_threshold) windows"

text \<open>
  A maximal run of consecutive crisis days in a dated series of flags: \<open>n\<close> days from
  position \<open>i\<close> on, all of them crisis days, with no crisis day right before or right
  after. This follows the wording of the specification, not the code.
\<close>

definition is_crisis_run :: "(date \<times> bool) list \<Rightarrow> nat \<Rightarrow> nat \<Rightarrow> bool" where
  "is_crisis_run s i n \<longleftrightarrow>
     0 < n \<and> i + n \<le> length s \<and> (\<forall>j < n. snd (s ! (i + j)))
     \<and> (i = 0 \<or> \<not> snd (s ! (i - 1)))
     \<and> (i + n = length s \<or> \<not> snd (s ! (i + n)))"

subsection \<open>Example label series and windows\<close>

definition quiet_day :: label_series where
  "quiet_day = [(0, Some ''Transition'')]"

text \<open>Four days: Transition three times (one of them a missing label) and one crisis day.\<close>

definition mixed_labels :: label_series where
  "mixed_labels = [(0, Some ''Transition''), (1, Some ''Risk-off / crisis''), (2, None),
     (3, Some ''Transition'')]"

definition far_window :: window where
  "far_window = \<lparr>win_episode = ''GFC'', win_start = 100, win_end = 200\<rparr>"

text \<open>Two days with a label outside \<open>REGIME_ORDER\<close>, then a day without a label.\<close>

definition foreign_labels :: label_series where
  "foreign_labels = [(1, Some ''Stagflation''), (2, Some ''Stagflation''), (3, None)]"

text \<open>
  Ten days, 7 to 16, all crisis days except day 12 (Transition), and a window from day 10 to
  day 14. Inside the window the two maximal crisis runs, days 10 to 11 and days 13 to 14,
  have the same length; in the whole series the crisis runs are days 7 to 11 and days 13
  to 16.
\<close>

definition tied_runs :: label_series where
  "tied_runs = [(7, Some ''Risk-off / crisis''), (8, Some ''Risk-off / crisis''),
     (9, Some ''Risk-off / crisis''), (10, Some ''Risk-off / crisis''),
     (11, Some ''Risk-off / crisis''), (12, Some ''Transition''),
     (13, Some ''Risk-off / crisis''), (14, Some ''Risk-off / crisis''),
     (15, Some ''Risk-off / crisis''), (16, Some ''Risk-off / crisis'')]"

definition tie_window :: window where
  "tie_window = \<lparr>win_episode = ''Episode'', win_start = 10, win_end = 14\<rparr>"

definition tied_row :: scorecard_row where
  "tied_row = stress_window_scorecard tied_runs [tie_window] ''Risk-off / crisis'' None [2, 3] ! 0"

section \<open>Auxiliary definitions for the proofs\<close>

text \<open>The labels a series may hold before the final fill.\<close>

definition known_or_missing :: "string option list \<Rightarrow> bool" where
  "known_or_missing r = (\<forall>x \<in> set r. x = None \<or> x \<in> Some ` set REGIME_ORDER)"

text \<open>
  The maximal runs of equal flags, computed directly; the run ids counted from a previous
  flag; one chunk of \<open>groupby\<close>; a list of chunks that are non-empty, constant and
  alternating; and the state the loop of the scorecard should hold after a list of chunks.
\<close>

fun runs :: "('a \<times> bool) list \<Rightarrow> ('a \<times> bool) list list" where
  "runs [] = []"
| "runs [x] = [[x]]"
| "runs (x # y # zs) =
     (if snd x = snd y then (x # hd (runs (y # zs))) # tl (runs (y # zs))
      else [x] # runs (y # zs))"

fun rid :: "bool \<Rightarrow> nat \<Rightarrow> bool list \<Rightarrow> nat list" where
  "rid p a [] = []"
| "rid p a (x # xs) = (if x \<noteq> p then Suc a else a) # rid x (if x \<noteq> p then Suc a else a) xs"

definition chunk_of :: "nat list \<Rightarrow> 'a list \<Rightarrow> nat \<Rightarrow> 'a list" where
  "chunk_of keys rows k = map snd (filter (\<lambda>p. fst p = k) (zip keys rows))"

fun chunked :: "('a \<times> bool) list list \<Rightarrow> bool" where
  "chunked [] = True"
| "chunked (c # cs) =
     (c \<noteq> [] \<and> (\<forall>p \<in> set c. snd p = snd (hd c))
      \<and> (cs = [] \<or> snd (hd (hd cs)) \<noteq> snd (hd c)) \<and> chunked cs)"

definition crisis_chunk :: "(date \<times> bool) list list \<Rightarrow> nat \<Rightarrow> bool" where
  "crisis_chunk cs k \<longleftrightarrow> k < length cs \<and> snd (hd (cs ! k))"

definition first_longest :: "(date \<times> bool) list list \<Rightarrow> nat \<Rightarrow> bool" where
  "first_longest cs k \<longleftrightarrow> crisis_chunk cs k
     \<and> (\<forall>k'. crisis_chunk cs k' \<longrightarrow> length (cs ! k') \<le> length (cs ! k)
            \<and> (k' < k \<longrightarrow> length (cs ! k') < length (cs ! k)))"

definition chunk_state :: "(date \<times> bool) list \<Rightarrow> nat \<times> date option \<times> date option" where
  "chunk_state c = (length c, Some (fst (hd c)), Some (fst (last c)))"

definition best :: "(date \<times> bool) list list \<Rightarrow> nat \<times> date option \<times> date option \<Rightarrow> bool" where
  "best cs st \<longleftrightarrow>
     (if \<exists>k. crisis_chunk cs k then \<exists>k. first_longest cs k \<and> st = chunk_state (cs ! k)
      else st = (0, None, None))"

section \<open>Verification\<close>

subsection \<open>Lengths and positions\<close>

lemma wf_frame_D: "wf_frame df \<Longrightarrow> columns df c = Some s \<Longrightarrow> length s = nrows df"
  by (simp add: wf_frame_def)

lemma wf_frame_of: "list_all (\<lambda>p. length (snd p) = n) cs \<Longrightarrow> wf_frame (frame_of n cs)"
  by (auto simp: wf_frame_def frame_of_def list_all_iff dest!: map_of_SomeD)

lemma length_cmp [simp]:
  "length (gt s c) = length s" "length (lt s c) = length s"
  "length (ge s c) = length s" "length (le s c) = length s"
  "length (abs_series s) = length s"
  by (simp_all add: gt_def lt_def ge_def le_def abs_series_def)

lemma length_masks [simp]:
  "length (and_mask a b) = min (length a) (length b)"
  "length (or_mask a b) = min (length a) (length b)"
  "length (not_mask a) = length a"
  "length (shift1_False a) = length a"
  "length (eq_label r l) = length r"
  by (simp_all add: and_mask_def or_mask_def not_mask_def shift1_False_def eq_label_def)

lemma length_regime_masks [simp]:
  "length (crisis cc z vc sc) = Min {length cc, length z, length vc, length sc}"
  "length (pivot u2 u10 vx vc) = Min {length u2, length u10, length vx, length vc}"
  "length (late_cycle cv cc vx) = Min {length cv, length cc, length vx}"
  "length (expansion u2 u10 cc vx) = Min {length u2, length u10, length cc, length vx}"
  "length (exit_crisis z vx) = min (length z) (length vx)"
  by (auto simp: crisis_def pivot_def late_cycle_def expansion_def exit_crisis_def
      credit_widening_def vix_spiking_def curve_flat_or_down_def vix_elev_def
      curve_inverted_def credit_stable_cond_def vix_low_cond_def rates_rising_def
      credit_tightening_def)

lemma length_assign [simp]: "length (assign m l r) = min (length m) (length r)"
  by (simp add: assign_def)

lemma length_fillna [simp]: "length (fillna v r) = length r"
  by (simp add: fillna_def)

lemma nth_assign:
  "i < length m \<Longrightarrow> i < length r \<Longrightarrow> assign m l r ! i = (if m ! i then Some l else r ! i)"
  by (simp add: assign_def)

lemma assign_hit:
  "i < length m \<Longrightarrow> i < length r \<Longrightarrow> m ! i \<or> r ! i = Some l \<Longrightarrow> assign m l r ! i = Some l"
  by (auto simp: nth_assign)

lemma set_assign: "x \<in> set (assign m l r) \<Longrightarrow> x = Some l \<or> x \<in> set r"
  by (auto simp: assign_def in_set_zip split: if_splits)

lemma set_fillna: "x \<in> set (fillna v r) \<Longrightarrow> x = Some v \<or> (x \<noteq> None \<and> x \<in> set r)"
  by (auto simp: fillna_def split: option.splits)

lemma nth_fillna:
  "i < length r \<Longrightarrow> fillna v r ! i = (case r ! i of None \<Rightarrow> Some v | Some x \<Rightarrow> Some x)"
  by (simp add: fillna_def)

lemma nth_ge:
  "i < length s \<Longrightarrow> ge s c ! i = (case s ! i of None \<Rightarrow> False | Some x \<Rightarrow> c \<le> x)"
  by (simp add: ge_def)

lemma nth_lt:
  "i < length s \<Longrightarrow> lt s c ! i = (case s ! i of None \<Rightarrow> False | Some x \<Rightarrow> x < c)"
  by (simp add: lt_def)

subsection \<open>The two ways the classifier returns\<close>

text \<open>
  A returned label series comes either from the early return (a required column is absent)
  or from the full pass, where \<open>r\<close> below is the label series after the score override and
  before the persistence step.
\<close>

lemma rule_based_regime_cases:
  assumes "rule_based_regime df = Inr ls"
  obtains (early) "\<not> list_all (\<lambda>c. c \<in> dom (columns df)) required"
      "ls = fillna ''Transition'' (replicate (nrows df) None)"
  | (full) u2 u10 cv cc z vx vc score r where
      "columns df ''ust_2y_chg_1m'' = Some u2" "columns df ''ust_10y_chg_1m'' = Some u10"
      "columns df ''curve_10y2y'' = Some cv" "columns df ''credit_chg_1m'' = Some cc"
      "columns df ''credit_z_1y'' = Some z" "columns df ''vix_level'' = Some vx"
      "columns df ''vix_chg_1m'' = Some vc" "columns df ''risk_off_score'' = Some score"
      "r = assign (ge score 3) ''Risk-off / crisis''
             (assign (crisis cc z vc score) ''Risk-off / crisis''
               (assign (pivot u2 u10 vx vc) ''Policy pivot''
                 (assign (late_cycle cv cc vx) ''Late-cycle''
                   (assign (expansion u2 u10 cc vx) ''Risk-on / expansion''
                     (replicate (nrows df) None)))))"
      "ls = fillna ''Transition''
              (assign (and_mask (shift1_False (eq_label r ''Risk-off / crisis''))
                 (not_mask (exit_crisis z vx))) ''Risk-off / crisis'' r)"
proof (cases "list_all (\<lambda>c. c \<in> dom (columns df)) required")
  case False
  with assms have "ls = fillna ''Transition'' (replicate (nrows df) None)"
    by (simp add: rule_based_regime_def)
  with False show ?thesis by (rule early)
next
  case True
  with assms obtain u2 u10 cv cc z vx vc score where c:
      "columns df ''ust_2y_chg_1m'' = Some u2" "columns df ''ust_10y_chg_1m'' = Some u10"
      "columns df ''curve_10y2y'' = Some cv" "columns df ''credit_chg_1m'' = Some cc"
      "columns df ''credit_z_1y'' = Some z" "columns df ''vix_level'' = Some vx"
      "columns df ''vix_chg_1m'' = Some vc" "columns df ''risk_off_score'' = Some score"
    by (auto simp: rule_based_regime_def bind_def getitem_def required_def
        split: option.splits)
  show ?thesis
  proof (rule full[OF c refl])
    show "ls = fillna ''Transition''
      (assign (and_mask (shift1_False (eq_label
         (assign (ge score 3) ''Risk-off / crisis''
           (assign (crisis cc z vc score) ''Risk-off / crisis''
             (assign (pivot u2 u10 vx vc) ''Policy pivot''
               (assign (late_cycle cv cc vx) ''Late-cycle''
                 (assign (expansion u2 u10 cc vx) ''Risk-on / expansion''
                   (replicate (nrows df) None)))))) ''Risk-off / crisis''))
         (not_mask (exit_crisis z vx))) ''Risk-off / crisis''
         (assign (ge score 3) ''Risk-off / crisis''
           (assign (crisis cc z vc score) ''Risk-off / crisis''
             (assign (pivot u2 u10 vx vc) ''Policy pivot''
               (assign (late_cycle cv cc vx) ''Late-cycle''
                 (assign (expansion u2 u10 cc vx) ''Risk-on / expansion''
                   (replicate (nrows df) None)))))))"
      using assms True c
      by (simp add: rule_based_regime_def bind_def getitem_def Let_def dom_def)
  qed
qed

subsection \<open>Labels of the closed set\<close>

lemma labels_in_order:
  "''Risk-off / crisis'' \<in> set REGIME_ORDER" "''Policy pivot'' \<in> set REGIME_ORDER"
  "''Late-cycle'' \<in> set REGIME_ORDER" "''Risk-on / expansion'' \<in> set REGIME_ORDER"
  "''Transition'' \<in> set REGIME_ORDER"
  by (simp_all add: REGIME_ORDER_def)

lemma known_replicate: "known_or_missing (replicate n None)"
  by (simp add: known_or_missing_def)

lemma known_assign:
  "l \<in> set REGIME_ORDER \<Longrightarrow> known_or_missing r \<Longrightarrow> known_or_missing (assign m l r)"
  unfolding known_or_missing_def by (blast dest: set_assign)

lemma known_fillna:
  "v \<in> set REGIME_ORDER \<Longrightarrow> known_or_missing r \<Longrightarrow>
   \<forall>x \<in> set (fillna v r). x \<in> Some ` set REGIME_ORDER"
  unfolding known_or_missing_def by (blast dest: set_fillna)

lemma calm_days_labels:
  "rule_based_regime calm_days = Inr [Some ''Risk-on / expansion'', Some ''Late-cycle'']"
  by code_simp

lemma wf_calm_days: "wf_frame calm_days"
  unfolding calm_days_def by (rule wf_frame_of) simp

text \<open>
  Claim C9. Whenever the classifier returns a label series for a well-formed feature table,
  the series has one entry per row, and every entry is present and is one of the five
  labels of \<open>REGIME_ORDER\<close>.
\<close>

theorem rule_based_regime_closed_label_set:
  assumes wf: "wf_frame df" and ret: "rule_based_regime df = Inr ls"
  shows "length ls = nrows df \<and> (\<forall>l \<in> set ls. l \<in> Some ` set REGIME_ORDER)"
using ret proof (cases rule: rule_based_regime_cases)
  case early
  then show ?thesis
    using known_fillna[OF labels_in_order(5) known_replicate, of "nrows df"] by simp
next
  case (full u2 u10 cv cc z vx vc score r)
  note len = wf_frame_D[OF wf full(1)] wf_frame_D[OF wf full(2)] wf_frame_D[OF wf full(3)]
    wf_frame_D[OF wf full(4)] wf_frame_D[OF wf full(5)] wf_frame_D[OF wf full(6)]
    wf_frame_D[OF wf full(7)] wf_frame_D[OF wf full(8)]
  have lr: "length r = nrows df" using len by (simp add: full(9))
  have l1: "length ls = nrows df" using len lr by (simp add: full(10))
  have "known_or_missing r"
    unfolding full(9) by (intro known_assign known_replicate labels_in_order)
  then have "\<forall>l \<in> set ls. l \<in> Some ` set REGIME_ORDER"
    unfolding full(10) by (intro known_fillna known_assign labels_in_order)
  with l1 show ?thesis by blast
qed

theorem rule_based_regime_closed_label_set_witness:
  "wf_frame calm_days
   \<and> rule_based_regime calm_days = Inr [Some ''Risk-on / expansion'', Some ''Late-cycle'']
   \<and> length [Some ''Risk-on / expansion'', Some ''Late-cycle''] = nrows calm_days
   \<and> set [Some ''Risk-on / expansion'', Some ''Late-cycle''] \<subseteq> Some ` set REGIME_ORDER"
  using rule_based_regime_closed_label_set[OF wf_calm_days calm_days_labels]
    wf_calm_days calm_days_labels by blast

subsection \<open>The score override\<close>

lemma override_day_labels: "rule_based_regime override_day = Inr [Some ''Risk-off / crisis'']"
  by code_simp

lemma wf_override_day: "wf_frame override_day"
  unfolding override_day_def by (rule wf_frame_of) simp

lemma override_day_required: "list_all (\<lambda>c. c \<in> dom (columns override_day)) required"
  by (simp add: override_day_def frame_of_def required_def dom_def)

lemma override_day_score: "columns override_day ''risk_off_score'' = Some [Some 3]"
  by (simp add: override_day_def frame_of_def)

lemma rule_based_regime_returns:
  assumes req: "list_all (\<lambda>c. c \<in> dom (columns df)) required"
    and z: "''credit_z_1y'' \<in> dom (columns df)"
    and sc: "''risk_off_score'' \<in> dom (columns df)"
  shows "\<exists>ls. rule_based_regime df = Inr ls"
proof -
  from req obtain u2 u10 cv cc vx vc where
    "columns df ''ust_2y_chg_1m'' = Some u2" "columns df ''ust_10y_chg_1m'' = Some u10"
    "columns df ''curve_10y2y'' = Some cv" "columns df ''credit_chg_1m'' = Some cc"
    "columns df ''vix_level'' = Some vx" "columns df ''vix_chg_1m'' = Some vc"
    unfolding required_def by (simp only: list.pred_inject dom_def mem_Collect_eq) blast
  moreover from z sc obtain cz score where
    "columns df ''credit_z_1y'' = Some cz" "columns df ''risk_off_score'' = Some score"
    by blast
  ultimately show ?thesis
    by (simp add: rule_based_regime_def getitem_def bind_def Let_def)
qed

lemma wf_score_without_z: "wf_frame score_without_z"
  unfolding score_without_z_def by (rule wf_frame_of) simp

lemma score_without_z_required: "list_all (\<lambda>c. c \<in> dom (columns score_without_z)) required"
  by (simp add: score_without_z_def frame_of_def required_def dom_def)

lemma score_without_z_score: "columns score_without_z ''risk_off_score'' = Some [Some 3]"
  by (simp add: score_without_z_def frame_of_def)

lemma score_without_z_raises:
  "rule_based_regime score_without_z = Inl (KeyError ''credit_z_1y'')"
  by code_simp

text \<open>
  Claim C7, as stated, fails. A table of one day with the six required columns and a
  composite score of 3, but without \<open>credit_z_1y\<close>, gets no label at all: the read at
  line 66 raises KeyError before the override at line 128 is reached.
\<close>

theorem score_override_needs_credit_z:
  "wf_frame score_without_z
   \<and> list_all (\<lambda>c. c \<in> dom (columns score_without_z)) required
   \<and> columns score_without_z ''risk_off_score'' = Some [Some 3]
   \<and> rule_based_regime score_without_z = Inl (KeyError ''credit_z_1y'')"
  using wf_score_without_z score_without_z_required score_without_z_score
    score_without_z_raises by simp

text \<open>
  Claim C7, amended. On a well-formed feature table with the six required columns, the
  column \<open>credit_z_1y\<close> and the score column, the classifier returns a label series with
  one label per day, and every day whose composite score is at least 3 is labelled
  Risk-off / crisis, whatever the regime definitions say on that day.
\<close>

theorem score_override_forces_crisis:
  assumes wf: "wf_frame df"
    and req: "list_all (\<lambda>c. c \<in> dom (columns df)) required"
    and z: "''credit_z_1y'' \<in> dom (columns df)"
    and sc: "columns df ''risk_off_score'' = Some score"
    and t: "t < nrows df" and v: "score ! t = Some v" "3 \<le> v"
  shows "\<exists>ls. rule_based_regime df = Inr ls \<and> length ls = nrows df
           \<and> ls ! t = Some ''Risk-off / crisis''"
proof -
  from sc have "''risk_off_score'' \<in> dom (columns df)" by blast
  from rule_based_regime_returns[OF req z this]
  obtain ls where ret: "rule_based_regime df = Inr ls" by blast
  from ret have "length ls = nrows df \<and> ls ! t = Some ''Risk-off / crisis''"
  proof (cases rule: rule_based_regime_cases)
    case early
    with req show ?thesis by simp
  next
    case (full u2 u10 cv cc z vx vc score' r)
    from full(8) sc have [simp]: "score' = score" by simp
    note len = wf_frame_D[OF wf full(1)] wf_frame_D[OF wf full(2)] wf_frame_D[OF wf full(3)]
      wf_frame_D[OF wf full(4)] wf_frame_D[OF wf full(5)] wf_frame_D[OF wf full(6)]
      wf_frame_D[OF wf full(7)] wf_frame_D[OF wf full(8)]
    have lr: "length r = nrows df" using len by (simp add: full(9))
    have "ge score 3 ! t" using t v len by (simp add: nth_ge)
    then have rt: "r ! t = Some ''Risk-off / crisis''"
      unfolding full(9) using t len by (intro assign_hit) simp_all
    have "assign (and_mask (shift1_False (eq_label r ''Risk-off / crisis''))
            (not_mask (exit_crisis z vx))) ''Risk-off / crisis'' r ! t
          = Some ''Risk-off / crisis''"
      using t len lr rt by (intro assign_hit) simp_all
    then show ?thesis using t len lr by (simp add: full(10) nth_fillna)
  qed
  with ret show ?thesis by blast
qed

lemma override_day_credit_z: "''credit_z_1y'' \<in> dom (columns override_day)"
  by (simp add: override_day_def frame_of_def dom_def)

theorem score_override_forces_crisis_witness:
  "wf_frame override_day
   \<and> list_all (\<lambda>c. c \<in> dom (columns override_day)) required
   \<and> ''credit_z_1y'' \<in> dom (columns override_day)
   \<and> columns override_day ''risk_off_score'' = Some [Some 3]
   \<and> (0::nat) < nrows override_day \<and> [Some (3::real)] ! 0 = Some 3 \<and> (3::real) \<le> 3
   \<and> rule_based_regime override_day = Inr [Some ''Risk-off / crisis'']
   \<and> length [Some ''Risk-off / crisis''] = nrows override_day
   \<and> [Some ''Risk-off / crisis''] ! 0 = Some ''Risk-off / crisis''"
  using score_override_forces_crisis[OF wf_override_day override_day_required
      override_day_credit_z override_day_score, of 0 3]
    wf_override_day override_day_labels override_day_required override_day_credit_z
    override_day_score
  by (simp add: override_day_def frame_of_def)

subsection \<open>Optional columns\<close>

text \<open>
  Claim C3 (the code departs from it). With the six required columns present and
  \<open>credit_z_1y\<close> absent, the read at line 66 raises KeyError; with \<open>credit_z_1y\<close> present and
  \<open>risk_off_score\<close> absent, the read at line 84 raises KeyError. No label series is
  returned in either case. Line 127 guards the later use of \<open>risk_off_score\<close>, line 84 does
  not.
\<close>

theorem missing_optional_column_raises:
  "rule_based_regime required_only = Inl (KeyError ''credit_z_1y'')
   \<and> rule_based_regime required_and_z = Inl (KeyError ''risk_off_score'')"
  by code_simp

subsection \<open>Persistence\<close>

text \<open>
  Missing exit data makes the exit condition false on that day: this much of claim C10
  holds for every table.
\<close>

lemma exit_crisis_missing:
  assumes "t < length z" "t < length vx" "z ! t = None \<or> vx ! t = None"
  shows "\<not> exit_crisis z vx ! t"
  using assms by (auto simp: exit_crisis_def and_mask_def nth_lt)

text \<open>
  Claim C1 (the code departs from it). On \<open>carry_run\<close> day 0 triggers crisis, days 1 and 2
  trigger nothing and never meet the exit condition. Day 1 is kept at crisis; day 2 is not:
  the persistence step reads the labels as they were before it ran, so the crisis carried
  into day 1 is not seen from day 2.
\<close>

theorem persistence_stops_after_one_day:
  "rule_based_regime carry_run
   = Inr [Some ''Risk-off / crisis'', Some ''Risk-off / crisis'', Some ''Transition'']"
  by code_simp

text \<open>
  Claim C10 (the code departs from it). On \<open>missing_exit_run\<close> the credit z-score is
  missing on days 1 and 2, so the exit condition is false on both. Day 1 is labelled
  crisis, and day 2 is nevertheless Transition.
\<close>

theorem missing_exit_data_ends_spell:
  "rule_based_regime missing_exit_run
   = Inr [Some ''Risk-off / crisis'', Some ''Risk-off / crisis'', Some ''Transition'']
   \<and> exit_crisis [Some 2, None, None] [Some 30, Some 30, Some 30] = [False, False, False]"
  by code_simp


subsection \<open>The distribution table\<close>

lemma sorted_distinct_key_unique:
  fixes f :: "'a \<Rightarrow> nat"
  assumes "sorted (map f as)" "distinct (map f as)" "sorted (map f bs)" "distinct (map f bs)"
    "set as = set bs"
  shows "as = bs"
proof -
  have "map f as = map f bs"
    using assms by (intro sorted_distinct_set_unique) simp_all
  moreover have "inj_on f (set as \<union> set bs)"
    using assms(2,5) by (simp add: distinct_map)
  ultimately show ?thesis by (simp add: inj_on_map_eq_map)
qed

lemma index_of_notin: "y \<notin> set ys \<Longrightarrow> map (index_of (y # ys)) ys = map Suc (map (index_of ys) ys)"
  by (induction ys) auto

lemma map_index_of: "distinct cs \<Longrightarrow> map (index_of cs) cs = [0..<length cs]"
proof (induction cs)
  case Nil
  then show ?case by simp
next
  case (Cons y ys)
  then have a: "map (index_of (y # ys)) ys = map Suc [0..<length ys]"
    by (simp add: index_of_notin)
  have h: "index_of (y # ys) y = 0" by simp
  have "map (index_of (y # ys)) (y # ys) = 0 # map Suc [0..<length ys]"
    by (simp only: list.map a h)
  also have "\<dots> = [0..<length (y # ys)]"
    by (simp add: map_Suc_upt upt_conv_Cons del: upt_Suc)
  finally show ?case .
qed

lemma index_of_inj: "distinct cs \<Longrightarrow> inj_on (index_of cs) (set cs)"
  using map_index_of[of cs] by (metis distinct_map distinct_upt)

lemma set_first_occurrences [simp]: "set (first_occurrences xs) = set xs"
  by (simp add: first_occurrences_def)

lemma distinct_first_occurrences [simp]: "distinct (first_occurrences xs)"
  by (simp add: first_occurrences_def)

lemma set_value_counts: "set (value_counts xs) = (\<lambda>x. (x, count_list xs x)) ` set xs"
  by (simp add: value_counts_def)

lemma distinct_value_counts: "distinct (map fst (value_counts xs))"
proof -
  have "distinct (map (\<lambda>x. (x, count_list xs x)) (first_occurrences xs))"
    by (simp add: distinct_map inj_on_def)
  then have d: "distinct (value_counts xs)" by (simp add: value_counts_def)
  have "inj_on fst (set (value_counts xs))"
    by (auto simp: set_value_counts inj_on_def)
  with d show ?thesis by (simp add: distinct_map)
qed

lemma sorted_map_int: "sorted (map int ys) \<longleftrightarrow> sorted ys"
  by (simp add: sorted_map)

lemma distinct_REGIME_ORDER: "distinct REGIME_ORDER"
  by (simp add: REGIME_ORDER_def)

text \<open>
  A label outside \<open>REGIME_ORDER\<close> becomes a NaN row of the table. When it is the most
  frequent label its row comes first, and \<open>sort_index\<close> leaves it there.
\<close>

lemma regime_distribution_foreign_labels:
  "regime_distribution foreign_labels = [(None, 2), (Some ''Transition'', 1)]"
  by code_simp

text \<open>
  Claim C4, as stated, fails. For a series of one Transition day the table has the single
  row of Transition: no row with count 0 stands for Risk-off / crisis.
\<close>

theorem regime_distribution_omits_absent_labels:
  "regime_distribution quiet_day = [(Some ''Transition'', 1)]
   \<and> (Some ''Risk-off / crisis'', 0) \<notin> set (regime_distribution quiet_day)"
  by code_simp

text \<open>
  Claim C4, amended. For every label series whose entries are missing or among the five
  labels, the table has exactly one row for each label that occurs at least once (a missing
  entry counting as Transition), in the order of \<open>REGIME_ORDER\<close>, with its number of days;
  a label with zero days has no row.
\<close>

theorem regime_distribution_present_labels:
  assumes closed: "\<forall>p \<in> set regimes. snd p = None \<or> (\<exists>r \<in> set REGIME_ORDER. snd p = Some r)"
  shows "regime_distribution regimes =
     map (\<lambda>r. (Some r, count_list (map snd (normalize_regime regimes)) r))
       (filter (\<lambda>r. r \<in> snd ` set (normalize_regime regimes)) REGIME_ORDER)"
proof -
  define xs where "xs = map snd (normalize_regime regimes)"
  define counts where "counts = value_counts xs"
  define cats where "cats = filter (\<lambda>r. r \<in> set xs) REGIME_ORDER"
  define f where "f = (\<lambda>row :: string option \<times> nat. category_code cats (fst row))"
  define out where "out = map (\<lambda>p. (Some (fst p), snd p)) counts"
  define T where "T = map (\<lambda>r. (Some r, count_list xs r)) cats"
  have xs_sub: "set xs \<subseteq> set REGIME_ORDER"
    using closed labels_in_order(5)
    by (fastforce simp: xs_def normalize_regime_def split: option.splits)
  have set_idx: "set (map fst counts) = set xs"
    by (simp add: counts_def set_value_counts image_image)
  have cats_eq: "regime_categories (map fst counts) = cats"
    unfolding regime_categories_def cats_def set_idx ..
  have set_cats: "set cats = set xs" using xs_sub by (auto simp: cats_def)
  have dcats: "distinct cats" by (simp add: cats_def distinct_REGIME_ORDER)
  have ori: "ordered_regime_index (map fst counts) = map Some (map fst counts)"
    unfolding ordered_regime_index_def cats_eq Let_def
    by (rule map_cong) (use set_idx set_cats in auto)
  have out_eq: "zip (ordered_regime_index (map fst counts)) (map snd counts) = out"
    unfolding ori out_def by (induction counts) auto
  have "map (\<lambda>row. codes cats (fst row)) out = map int (map f out)"
    by (simp add: out_def f_def codes_def category_code_def)
  then have "sorted (map (\<lambda>row. codes cats (fst row)) out) \<longleftrightarrow> sorted (map f out)"
    by (simp only: sorted_map_int)
  then have "sort_index cats out = sort_key f out"
    unfolding sort_index_def f_def[symmetric] by (simp add: sort_key_id_if_sorted)
  then have res: "regime_distribution regimes = sort_key f out"
    unfolding regime_distribution_def Let_def xs_def[symmetric] counts_def[symmetric]
      cats_eq out_eq by simp
  have set_out: "set out = (\<lambda>x. (Some x, count_list xs x)) ` set xs"
    by (auto simp: out_def counts_def set_value_counts image_image)
  have set_T: "set T = set out"
    by (simp add: T_def set_out set_cats)
  have fT: "map f T = [0..<length cats]"
    using map_index_of[OF dcats] by (simp add: T_def f_def category_code_def comp_def)
  have dcounts: "distinct (map fst counts)"
    unfolding counts_def by (rule distinct_value_counts)
  have fout: "map f out = map (index_of cats) (map fst counts)"
    by (simp add: out_def f_def category_code_def)
  have "inj_on (index_of cats) (set (map fst counts))"
    using index_of_inj[OF dcats] unfolding set_idx set_cats .
  then have dfout: "distinct (map f out)"
    unfolding fout by (subst distinct_map) (use dcounts in blast)
  have "sort_key f out = T"
  proof (rule sorted_distinct_key_unique[where f = f])
    show "sorted (map f (sort_key f out))" by (rule sorted_sort_key)
    show "distinct (map f (sort_key f out))"
      using dfout by (metis distinct_map distinct_sort set_sort)
    show "sorted (map f T)" by (simp add: fT)
    show "distinct (map f T)" by (simp add: fT)
    show "set (sort_key f out) = set T" by (simp add: set_T)
  qed
  then show ?thesis
    by (simp add: res T_def cats_def xs_def)
qed

theorem regime_distribution_present_labels_witness:
  "list_all (\<lambda>p. snd p = None \<or> (\<exists>r \<in> set REGIME_ORDER. snd p = Some r)) mixed_labels
   \<and> regime_distribution mixed_labels
       = [(Some ''Risk-off / crisis'', 1), (Some ''Transition'', 3)]"
proof -
  have h: "list_all (\<lambda>p. snd p = None \<or> (\<exists>r \<in> set REGIME_ORDER. snd p = Some r)) mixed_labels"
    by code_simp
  then have "\<forall>p \<in> set mixed_labels. snd p = None \<or> (\<exists>r \<in> set REGIME_ORDER. snd p = Some r)"
    by (simp add: list_all_iff)
  from regime_distribution_present_labels[OF this]
  have "regime_distribution mixed_labels =
     map (\<lambda>r. (Some r, count_list (map snd (normalize_regime mixed_labels)) r))
       (filter (\<lambda>r. r \<in> snd ` set (normalize_regime mixed_labels)) REGIME_ORDER)" .
  also have "\<dots> = [(Some ''Risk-off / crisis'', 1), (Some ''Transition'', 3)]"
    by code_simp
  finally show ?thesis using h by simp
qed

subsection \<open>Windows without observations\<close>

lemma window_rows_empty:
  "(\<forall>d \<in> fst ` set reg. d < win_start w \<or> win_end w < d) \<Longrightarrow> window_rows reg w = []"
  by (auto simp: window_rows_def filter_empty_conv)

lemma fst_normalize [simp]: "map fst (normalize_regime regimes) = map fst regimes"
  by (simp add: normalize_regime_def split_def)

text \<open>
  Claim C5, as stated, fails. For a window that overlaps no observation date the reported
  length of the longest crisis run is the number 0, not a missing value.
\<close>

theorem empty_window_run_length_is_zero:
  "n_obs (stress_window_scorecard quiet_day [far_window] ''Risk-off / crisis'' None [2, 3] ! 0) = 0
   \<and> max_crisis_run_days
        (stress_window_scorecard quiet_day [far_window] ''Risk-off / crisis'' None [2, 3] ! 0) = 0"
  by code_simp

text \<open>
  Claim C5, amended. For every window that overlaps no observation date the scorecard has
  a row for that episode, with observation count 0, with crisis share, first crisis date
  and the start and end dates of the longest run missing, with longest-run length 0, and
  with no score-threshold share recorded.
\<close>

theorem empty_window_row:
  assumes i: "i < length windows"
    and none: "\<forall>d \<in> fst ` set regimes. d < win_start (windows ! i) \<or> win_end (windows ! i) < d"
  shows "stress_window_scorecard regimes windows target risk_off_score score_threshold ! i =
     \<lparr>episode = win_episode (windows ! i), start = win_start (windows ! i),
      end_date = win_end (windows ! i), n_obs = 0, crisis_share = None,
      first_crisis_date = None, max_crisis_run_days = 0, max_crisis_run_start = None,
      max_crisis_run_end = None, score_shares = []\<rparr>"
proof -
  have "fst ` set (normalize_regime regimes) = fst ` set regimes"
    using fst_normalize[of regimes] by (metis set_map)
  with none have "window_rows (normalize_regime regimes) (windows ! i) = []"
    by (intro window_rows_empty) simp
  then show ?thesis using i
    by (simp add: stress_window_scorecard_def episode_row_def is_crisis_in_def)
qed

theorem empty_window_row_witness:
  "(0::nat) < length [far_window]
   \<and> list_all (\<lambda>d. d < win_start far_window \<or> win_end far_window < d) (map fst quiet_day)
   \<and> stress_window_scorecard quiet_day [far_window] ''Risk-off / crisis''
        (Some (map_of [(0, 3)])) [2, 3] ! 0
      = \<lparr>episode = ''GFC'', start = 100, end_date = 200, n_obs = 0, crisis_share = None,
         first_crisis_date = None, max_crisis_run_days = 0, max_crisis_run_start = None,
         max_crisis_run_end = None, score_shares = []\<rparr>"
proof -
  have i: "(0::nat) < length [far_window]" by simp
  have h: "list_all (\<lambda>d. d < win_start far_window \<or> win_end far_window < d) (map fst quiet_day)"
    by (simp add: far_window_def quiet_day_def)
  then have "\<forall>d \<in> fst ` set quiet_day.
      d < win_start ([far_window] ! 0) \<or> win_end ([far_window] ! 0) < d"
    by (simp add: list_all_iff)
  from empty_window_row[OF i this, of "''Risk-off / crisis''" "Some (map_of [(0, 3)])" "[2, 3]"]
  show ?thesis using i h by (simp add: far_window_def)
qed


subsection \<open>Series operations and prefixes\<close>

text \<open>
  Every series operation of the pipeline after the lag is causal: the first \<open>m\<close> rows of
  its result are its result on the first \<open>m\<close> rows. The lag itself reads \<open>k\<close> rows back.
\<close>

lemma length_shift [simp]: "length (shift k xs) = length xs"
  by (auto simp: shift_def min_def)

lemma nth_shift:
  assumes "i < length xs"
  shows "shift k xs ! i =
     (if int i - k < 0 \<or> int (length xs) \<le> int i - k then None else xs ! nat (int i - k))"
proof (cases "0 \<le> k")
  case True
  have "shift k xs ! i = (replicate (nat k) None @ xs) ! i"
    using True assms by (simp add: shift_def del: take_append)
  also have "\<dots> = (if i < nat k then None else xs ! (i - nat k))"
    by (simp add: nth_append)
  also have "\<dots> = (if int i - k < 0 \<or> int (length xs) \<le> int i - k then None
                      else xs ! nat (int i - k))"
  proof -
    have "i - nat k = nat (int i - k)" using True by linarith
    moreover have "\<not> int (length xs) \<le> int i - k" using True assms by linarith
    moreover have "i < nat k \<longleftrightarrow> int i - k < 0" using True by linarith
    ultimately show ?thesis by simp
  qed
  finally show ?thesis .
next
  case False
  define j where "j = nat (- k)"
  have k: "k = - int j" using False by (simp add: j_def)
  have "shift k xs ! i = (drop j xs @ replicate (min j (length xs)) None) ! i"
    using False by (simp add: shift_def j_def)
  also have "\<dots> = (if i < length xs - j then xs ! (j + i) else None)"
  proof (cases "i < length xs - j")
    case True
    then show ?thesis by (simp add: nth_append)
  next
    case False
    then have "i - (length xs - j) < min j (length xs)" using assms by linarith
    then show ?thesis using False by (simp add: nth_append del: replicate.simps)
  qed
  also have "\<dots> = (if int i - k < 0 \<or> int (length xs) \<le> int i - k then None
                      else xs ! nat (int i - k))"
  proof -
    have "nat (int i - k) = j + i" unfolding k by linarith
    moreover have "i < length xs - j \<longleftrightarrow> \<not> (int i - k < 0 \<or> int (length xs) \<le> int i - k)"
      unfolding k by linarith
    ultimately show ?thesis by simp
  qed
  finally show ?thesis .
qed

lemma take_shift_commute:
  assumes "0 \<le> k"
  shows "take m (shift k xs) = shift k (take m xs)"
proof (rule nth_equalityI)
  show "length (take m (shift k xs)) = length (shift k (take m xs))" by simp
next
  fix i assume "i < length (take m (shift k xs))"
  then have i: "i < m" "i < length xs" by simp_all
  have j: "nat (int i - k) < m" using i assms by linarith
  have "i < min (length xs) m" using i by simp
  then have r: "\<not> int (min (length xs) m) \<le> int i - k" "\<not> int (length xs) \<le> int i - k"
    using assms i by linarith+
  show "take m (shift k xs) ! i = shift k (take m xs) ! i"
    using i j r by (simp add: nth_shift)
qed

lemma take_shift_cong:
  assumes len: "length xs = length ys"
    and eq: "take (nat (int m - k)) xs = take (nat (int m - k)) ys"
  shows "take m (shift k xs) = take m (shift k ys)"
proof (rule nth_equalityI)
  show "length (take m (shift k xs)) = length (take m (shift k ys))" using len by simp
next
  fix i assume "i < length (take m (shift k xs))"
  then have i: "i < m" "i < length xs" by simp_all
  have "xs ! nat (int i - k) = ys ! nat (int i - k)" if "\<not> int i - k < 0"
  proof -
    have lt: "nat (int i - k) < nat (int m - k)" using that i by linarith
    have "xs ! nat (int i - k) = take (nat (int m - k)) xs ! nat (int i - k)"
      using lt by simp
    also have "\<dots> = take (nat (int m - k)) ys ! nat (int i - k)" by (simp only: eq)
    also have "\<dots> = ys ! nat (int i - k)" using lt by simp
    finally show ?thesis .
  qed
  then show "take m (shift k xs) ! i = take m (shift k ys) ! i"
    using i len by (simp add: nth_shift)
qed

lemma take_ffill_from: "take m (ffill_from cap st xs) = ffill_from cap st (take m xs)"
proof (induction cap st xs arbitrary: m rule: ffill_from.induct)
  case (1 cap st)
  then show ?case by simp
next
  case (2 cap st v xs)
  then show ?case by (cases m; simp)
next
  case (3 cap xs)
  then show ?case by (cases m; simp)
next
  case (4 cap v c xs)
  then show ?case by (cases m; simp)
qed

lemma take_ffill: "take m (ffill cap xs) = ffill cap (take m xs)"
  by (simp add: ffill_def take_ffill_from)

lemma length_ffill_from [simp]: "length (ffill_from cap st xs) = length xs"
  by (induction cap st xs rule: ffill_from.induct) simp_all

lemma length_ffill [simp]: "length (ffill cap xs) = length xs"
  by (simp add: ffill_def)

lemma take_sub_series: "take m (sub_series a b) = sub_series (take m a) (take m b)"
  by (simp add: sub_series_def take_map take_zip)

lemma take_div_series: "take m (div_series a b) = div_series (take m a) (take m b)"
  by (simp add: div_series_def take_map take_zip)

lemma window_values_take: "i < m \<Longrightarrow> window_values w (take m xs) i = window_values w xs i"
  by (simp add: window_values_def min_def)

lemma take_map_upt: "take m (map f [0..<n]) = map f [0..<min m n]"
  by (simp add: take_map min_def)

lemma take_rolling_mean: "take m (rolling_mean w p xs) = rolling_mean w p (take m xs)"
  unfolding rolling_mean_def take_map_upt
  by (rule map_cong) (simp_all add: window_values_take min.commute)

lemma take_rolling_std: "take m (rolling_std w p xs) = rolling_std w p (take m xs)"
  unfolding rolling_std_def take_map_upt
  by (rule map_cong) (simp_all add: window_values_take min.commute)

lemma take_zscore_rolling: "take m (zscore_rolling x w p) = zscore_rolling (take m x) w p"
  by (simp add: zscore_rolling_def Let_def take_div_series take_sub_series take_map
      take_rolling_mean take_rolling_std)

lemma take_astype_cmp:
  "take m (astype_float (lt s c)) = astype_float (lt (take m s) c)"
  "take m (astype_float (gt s c)) = astype_float (gt (take m s) c)"
  by (simp_all add: astype_float_def lt_def gt_def take_map)

lemma take_sum_rows: "take m (sum_rows n k sigs) = sum_rows (min m n) k (map (take m) sigs)"
  unfolding sum_rows_def take_map_upt
  by (rule map_cong) (simp_all add: comp_def)

subsection \<open>Frame operations and prefixes\<close>

lemma head_rows_simps [simp]:
  "nrows (head_rows m df) = min m (nrows df)"
  "columns (head_rows m df) c = map_option (take m) (columns df c)"
  by (simp_all add: head_rows_def)

lemma frame_eqI: "nrows F = nrows G \<Longrightarrow> (\<And>c. columns F c = columns G c) \<Longrightarrow> F = (G :: frame)"
  by (cases F, cases G) (simp add: fun_eq_iff)

lemma setitem_simps [simp]:
  "nrows (setitem df c s) = nrows df"
  "columns (setitem df c s) c' = (if c' = c then Some s else columns df c')"
  by (simp_all add: setitem_def)

lemma head_rows_setitem: "head_rows m (setitem df c s) = setitem (head_rows m df) c (take m s)"
  by (rule frame_eqI) simp_all

lemma head_rows_ffill_frame: "head_rows m (ffill_frame cap df) = ffill_frame cap (head_rows m df)"
  by (rule frame_eqI) (simp_all add: ffill_frame_def option.map_comp comp_def take_ffill)

lemma head_rows_add_curve: "head_rows m (add_curve w p df) = add_curve w p (head_rows m df)"
  by (simp add: add_curve_def Let_def head_rows_setitem take_sub_series take_zscore_rolling
      split: option.splits)

lemma head_rows_add_chg_1m:
  "0 \<le> d \<Longrightarrow> head_rows m (add_chg_1m d col df) = add_chg_1m d col (head_rows m df)"
  by (simp add: add_chg_1m_def head_rows_setitem take_sub_series take_shift_commute
      split: option.splits)

lemma head_rows_add_credit:
  "0 \<le> d \<Longrightarrow> head_rows m (add_credit d w p df) = add_credit d w p (head_rows m df)"
  by (simp add: add_credit_def Let_def head_rows_setitem take_sub_series take_shift_commute
      take_zscore_rolling split: option.splits)

lemma head_rows_add_vix:
  "0 \<le> d \<Longrightarrow> head_rows m (add_vix d w p df) = add_vix d w p (head_rows m df)"
  by (simp add: add_vix_def Let_def head_rows_setitem take_sub_series take_shift_commute
      take_zscore_rolling split: option.splits)

lemma signals_head_rows: "signals (head_rows m df) = map (take m) (signals df)"
  by (simp add: signals_def take_astype_cmp split: option.splits)

lemma head_rows_add_score: "head_rows m (add_score df) = add_score (head_rows m df)"
  by (simp add: add_score_def Let_def signals_head_rows head_rows_setitem take_sum_rows)

lemma head_rows_shift_frame_cong:
  assumes wfA: "wf_frame A" and wfB: "wf_frame B" and n: "nrows A = nrows B"
    and eq: "head_rows (nat (int m - k)) A = head_rows (nat (int m - k)) B"
  shows "head_rows m (shift_frame k A) = head_rows m (shift_frame k B)"
proof (rule frame_eqI)
  show "nrows (head_rows m (shift_frame k A)) = nrows (head_rows m (shift_frame k B))"
    using n by (simp add: shift_frame_def)
next
  fix c
  have "columns (head_rows (nat (int m - k)) A) c = columns (head_rows (nat (int m - k)) B) c"
    by (simp only: eq)
  then have e: "map_option (take (nat (int m - k))) (columns A c)
      = map_option (take (nat (int m - k))) (columns B c)"
    by (simp only: head_rows_simps)
  show "columns (head_rows m (shift_frame k A)) c = columns (head_rows m (shift_frame k B)) c"
  proof (cases "columns A c")
    case None
    with e show ?thesis by (simp add: shift_frame_def)
  next
    case (Some xs)
    with e obtain ys where ys: "columns B c = Some ys"
      "take (nat (int m - k)) xs = take (nat (int m - k)) ys" by (cases "columns B c") auto
    have "length xs = length ys"
      using wfA wfB n Some ys(1) by (simp add: wf_frame_def)
    then have "take m (shift k xs) = take m (shift k ys)"
      using ys(2) by (rule take_shift_cong)
    then show ?thesis using Some ys(1) by (simp add: shift_frame_def)
  qed
qed

lemma head_rows_build_features:
  assumes "0 \<le> days_1m"
  shows "head_rows m (build_features macro lag_days days_1m days_1y fill_days)
    = add_score (add_vix days_1m days_1y (days_1y * 4 div 5)
        (add_credit days_1m days_1y (days_1y * 4 div 5)
          (add_chg_1m days_1m ''ust_2y'' (add_chg_1m days_1m ''ust_10y''
            (add_curve days_1y (days_1y * 4 div 5)
              (ffill_frame fill_days (head_rows m (shift_frame lag_days macro))))))))"
  using assms
  by (simp add: build_features_def Let_def head_rows_add_score head_rows_add_vix
      head_rows_add_credit head_rows_add_chg_1m head_rows_add_curve head_rows_ffill_frame)

lemma row_at_head_rows: "row_at (head_rows (Suc t) df) t = row_at df t"
  by (simp add: row_at_def fun_eq_iff option.map_comp comp_def)

lemma head_rows_eqI:
  assumes n: "nrows A = nrows B" and wfA: "wf_frame A" and wfB: "wf_frame B"
    and d: "dom (columns A) = dom (columns B)"
    and agree: "\<forall>c xs ys i. columns A c = Some xs \<longrightarrow> columns B c = Some ys \<longrightarrow> i < m
        \<longrightarrow> i < nrows A \<longrightarrow> xs ! i = ys ! i"
  shows "head_rows m A = head_rows m B"
proof (rule frame_eqI)
  show "nrows (head_rows m A) = nrows (head_rows m B)" using n by simp
next
  fix c
  show "columns (head_rows m A) c = columns (head_rows m B) c"
  proof (cases "columns A c")
    case None
    then have "columns B c = None" using d by (metis domIff)
    with None show ?thesis by simp
  next
    case (Some xs)
    then obtain ys where ys: "columns B c = Some ys" using d by (metis domIff not_Some_eq)
    have len: "length xs = nrows A" "length ys = nrows A"
      using wfA wfB n Some ys by (simp_all add: wf_frame_def)
    have "take m xs = take m ys"
    proof (rule nth_equalityI)
      show "length (take m xs) = length (take m ys)" using len by simp
    next
      fix i assume "i < length (take m xs)"
      then have "i < m" "i < nrows A" using len by simp_all
      then show "take m xs ! i = take m ys ! i" using agree Some ys by simp
    qed
    then show ?thesis using Some ys by simp
  qed
qed

lemma head_rows_frame_of:
  "head_rows m (frame_of n cs) = frame_of (min m n) (map (\<lambda>p. (fst p, take m (snd p))) cs)"
proof (rule frame_eqI)
  show "nrows (head_rows m (frame_of n cs))
      = nrows (frame_of (min m n) (map (\<lambda>p. (fst p, take m (snd p))) cs))"
    by (simp add: frame_of_def)
next
  fix c
  have "map_of (map (\<lambda>p. (fst p, take m (snd p))) cs) c = map_option (take m) (map_of cs c)"
    by (induction cs) auto
  then show "columns (head_rows m (frame_of n cs)) c
      = columns (frame_of (min m n) (map (\<lambda>p. (fst p, take m (snd p))) cs)) c"
    by (simp add: frame_of_def)
qed

lemma agree_of_head_rows:
  assumes "head_rows m A = head_rows m B"
  shows "\<forall>c xs ys i. columns A c = Some xs \<longrightarrow> columns B c = Some ys \<longrightarrow> i < m
           \<longrightarrow> xs ! i = ys ! i"
proof (intro allI impI)
  fix c xs ys i
  assume a: "columns A c = Some xs" "columns B c = Some ys" "i < m"
  have "columns (head_rows m A) c = columns (head_rows m B) c" by (simp only: assms)
  with a have "take m xs = take m ys" by simp
  then have "take m xs ! i = take m ys ! i" by simp
  with a(3) show "xs ! i = ys ! i" by simp
qed

subsection \<open>No lookahead\<close>

text \<open>
  Claim C6. Let two raw tables have the same dates and the same columns and agree on every
  value at positions up to \<open>t - lag_days\<close>. Then \<open>build_features\<close> gives the same feature
  row at \<open>t\<close> for both: every column of the result has the same value there. The
  short window \<open>days_1m\<close> is a length (not negative) and \<open>fill_days\<close> a limit pandas
  accepts (at least 1).
\<close>

theorem build_features_no_lookahead:
  assumes wfA: "wf_frame A" and wfB: "wf_frame B" and n: "nrows A = nrows B"
    and d: "dom (columns A) = dom (columns B)"
    and agree: "\<forall>c xs ys i. columns A c = Some xs \<longrightarrow> columns B c = Some ys
        \<longrightarrow> int i \<le> int t - lag_days \<longrightarrow> i < nrows A \<longrightarrow> xs ! i = ys ! i"
    and p: "0 \<le> days_1m" "0 < fill_days"
  shows "row_at (build_features A lag_days days_1m days_1y fill_days) t
       = row_at (build_features B lag_days days_1m days_1y fill_days) t"
proof -
  have "head_rows (nat (int (Suc t) - lag_days)) A = head_rows (nat (int (Suc t) - lag_days)) B"
  proof (rule head_rows_eqI[OF n wfA wfB d], intro allI impI)
    fix c xs ys i
    assume a: "columns A c = Some xs" "columns B c = Some ys"
      "i < nat (int (Suc t) - lag_days)" "i < nrows A"
    then have "int i \<le> int t - lag_days" by linarith
    with a agree show "xs ! i = ys ! i" by blast
  qed
  then have "head_rows (Suc t) (shift_frame lag_days A) = head_rows (Suc t) (shift_frame lag_days B)"
    by (rule head_rows_shift_frame_cong[OF wfA wfB n])
  then have "head_rows (Suc t) (build_features A lag_days days_1m days_1y fill_days)
           = head_rows (Suc t) (build_features B lag_days days_1m days_1y fill_days)"
    by (simp only: head_rows_build_features[OF p(1)])
  then show ?thesis by (metis row_at_head_rows)
qed

lemma wf_raw: "wf_frame raw_a" "wf_frame raw_b"
  unfolding raw_a_def raw_b_def by (rule wf_frame_of, simp)+

lemma head_rows_raw: "head_rows 2 raw_a = head_rows 2 raw_b"
  by (simp add: raw_a_def raw_b_def head_rows_frame_of)

lemma dom_raw: "dom (columns raw_a) = dom (columns raw_b)"
  by (simp add: raw_a_def raw_b_def frame_of_def dom_map_of_conv_image_fst)

theorem build_features_no_lookahead_witness:
  "wf_frame raw_a \<and> wf_frame raw_b \<and> nrows raw_a = nrows raw_b
   \<and> dom (columns raw_a) = dom (columns raw_b)
   \<and> head_rows 2 raw_a = head_rows 2 raw_b
   \<and> (0::int) \<le> 1 \<and> (0::nat) < 5
   \<and> row_at (build_features raw_a 1 1 2 5) 2 = row_at (build_features raw_b 1 1 2 5) 2"
proof -
  have n: "nrows raw_a = nrows raw_b" by (simp add: raw_a_def raw_b_def frame_of_def)
  have "\<forall>c xs ys i. columns raw_a c = Some xs \<longrightarrow> columns raw_b c = Some ys
      \<longrightarrow> int i \<le> int 2 - 1 \<longrightarrow> i < nrows raw_a \<longrightarrow> xs ! i = ys ! i"
  proof (intro allI impI)
    fix c xs ys i
    assume a: "columns raw_a c = Some xs" "columns raw_b c = Some ys" "int i \<le> int 2 - 1"
    then have "i < 2" by linarith
    with agree_of_head_rows[OF head_rows_raw] a show "xs ! i = ys ! i" by blast
  qed
  from build_features_no_lookahead[OF wf_raw n dom_raw this, of 1 5 2]
  show ?thesis using wf_raw n dom_raw head_rows_raw by simp
qed

subsection \<open>The composite score\<close>

text \<open>
  The square root in \<open>std\<close> has no code equation; evaluation leaves \<open>std\<close> as it is.
\<close>

declare std_def [code del]

text \<open>
  Claim C2 (the code departs from it). On \<open>two_raw_days\<close> with the default parameters, row 0
  of the lagged table is all NaN, so none of the three signals is available there: curve,
  credit change and volatility change are all missing at row 0. The score at row 0 is
  nevertheless 0, not missing: each comparison has turned its NaN into False before the
  sum, so \<open>min_count\<close> never finds a missing entry. At row 1 one signal is available (the
  curve, inverted) and the score is 1.
\<close>

theorem score_zero_without_available_signal:
  "columns (build_features two_raw_days 1 21 252 5) ''curve_10y2y'' = Some [None, Some (- 1)]
   \<and> columns (build_features two_raw_days 1 21 252 5) ''credit_chg_1m'' = Some [None, None]
   \<and> columns (build_features two_raw_days 1 21 252 5) ''vix_chg_1m'' = Some [None, None]
   \<and> columns (build_features two_raw_days 1 21 252 5) ''risk_off_score''
       = Some [Some 0, Some 1]"
  by code_simp


subsection \<open>The longest crisis run\<close>

text \<open>
  Grouping the rows by the cumulative count of change points gives the maximal runs of
  equal flags, in order.
\<close>

lemma cumsum_rid:
  "cumsum_from a (map2 (\<lambda>cur prev. cur \<noteq> prev) xs (p # xs)) = rid p a xs"
  by (induction xs arbitrary: p a) auto

lemma cumsum_from_True: "cumsum_from a (True # bs) = Suc a # cumsum_from (Suc a) bs"
  by simp

lemma run_id_Cons: "run_id (x # xs) = Suc 0 # rid x (Suc 0) xs"
  by (simp only: run_id_def change_points.simps cumsum_from_True cumsum_rid)

lemma rid_ge: "i \<in> set (rid p a xs) \<Longrightarrow> a \<le> i"
proof (induction xs arbitrary: p a)
  case Nil
  then show ?case by simp
next
  case (Cons x xs)
  then show ?case by (fastforce split: if_splits)
qed

lemma keys_new:
  fixes a :: nat
  assumes "\<forall>i \<in> set ids. a < i"
  shows "sort (remdups (a # ids)) = a # sort (remdups ids)"
proof -
  have "a \<notin> set ids" using assms by auto
  then have "sort (remdups (a # ids)) = insort a (sort (remdups ids))" by simp
  also have "\<dots> = a # sort (remdups ids)"
    by (rule insort_is_Cons) (use assms in \<open>auto intro: less_imp_le\<close>)
  finally show ?thesis .
qed

lemma keys_old:
  fixes a :: nat
  assumes "a \<in> set ids" "\<forall>i \<in> set ids. a \<le> i"
  shows "\<exists>K. sort (remdups ids) = a # K \<and> a \<notin> set K \<and> sort (remdups (a # ids)) = a # K"
proof -
  define L where "L = sort (remdups ids)"
  have s: "sorted L" and d: "distinct L" and e: "set L = set ids"
    by (simp_all add: L_def)
  from assms(1) e have "L \<noteq> []" by auto
  then obtain h K where L: "L = h # K" by (cases L) auto
  have "h \<le> a" using s assms(1) e L by auto
  moreover have "a \<le> h" using assms(2) e L by auto
  ultimately have "h = a" by simp
  with L d have K: "a \<notin> set K" by auto
  have r: "sort (remdups (a # ids)) = sort (remdups ids)" using assms(1) by simp
  have "sort (remdups ids) = a # K" using L \<open>h = a\<close> by (simp add: L_def)
  with K r show ?thesis by simp
qed

lemma groupby_chunks: "groupby keys rows = map (chunk_of keys rows) (sort (remdups keys))"
  by (simp add: groupby_def chunk_of_def)

lemma chunk_of_Cons:
  "chunk_of (a # ids) (x # xs) k = (if a = k then x # chunk_of ids xs k else chunk_of ids xs k)"
  by (simp add: chunk_of_def)

lemma chunk_of_absent: "k \<notin> set ids \<Longrightarrow> chunk_of ids xs k = []"
  by (auto simp: chunk_of_def filter_empty_conv dest: set_zip_leftD)

lemma groupby_new:
  assumes "\<forall>i \<in> set ids. a < i"
  shows "groupby (a # ids) (x # xs) = [x] # groupby ids xs"
proof -
  have "a \<notin> set ids" using assms by auto
  then have h: "chunk_of (a # ids) (x # xs) a = [x]"
    by (simp add: chunk_of_Cons chunk_of_absent)
  have t: "map (chunk_of (a # ids) (x # xs)) (sort (remdups ids))
         = map (chunk_of ids xs) (sort (remdups ids))"
    by (rule map_cong) (use \<open>a \<notin> set ids\<close> in \<open>auto simp: chunk_of_Cons\<close>)
  show ?thesis unfolding groupby_chunks keys_new[OF assms] using h t by simp
qed

lemma groupby_old:
  assumes "a \<in> set ids" "\<forall>i \<in> set ids. a \<le> i"
  shows "groupby (a # ids) (x # xs) = (x # hd (groupby ids xs)) # tl (groupby ids xs)"
proof -
  from keys_old[OF assms] obtain K where K: "sort (remdups ids) = a # K" "a \<notin> set K"
    "sort (remdups (a # ids)) = a # K" by blast
  have t: "map (chunk_of (a # ids) (x # xs)) K = map (chunk_of ids xs) K"
    by (rule map_cong) (use K(2) in \<open>auto simp: chunk_of_Cons\<close>)
  show ?thesis unfolding groupby_chunks K(1) K(3) using t by (simp add: chunk_of_Cons)
qed

lemma groupby_rid: "groupby (rid p a (map snd s)) s = runs s"
proof (induction s arbitrary: p a rule: runs.induct)
  case 1
  then show ?case by (simp add: groupby_def)
next
  case (2 x)
  then show ?case by (simp add: groupby_def)
next
  case (3 x y zs)
  define a1 where "a1 = (if snd x \<noteq> p then Suc a else a)"
  define ids where "ids = rid (snd x) a1 (map snd (y # zs))"
  have ids_eq: "rid p a (map snd (x # y # zs)) = a1 # ids"
    by (simp add: a1_def ids_def)
  have ge: "\<forall>i \<in> set ids. a1 \<le> i" unfolding ids_def using rid_ge by blast
  show ?case
  proof (cases "snd x = snd y")
    case True
    have IH: "groupby ids (y # zs) = runs (y # zs)"
      unfolding ids_def by (rule 3(1)[OF True])
    have "rid (snd x) a1 (map snd (y # zs)) = a1 # rid (snd y) a1 (map snd zs)"
      using True by simp
    then have "a1 \<in> set ids" by (simp only: ids_def list.set_intros)
    from groupby_old[OF this ge, of x "y # zs"] show ?thesis
      unfolding ids_eq IH using True by simp
  next
    case False
    have IH: "groupby ids (y # zs) = runs (y # zs)"
      unfolding ids_def by (rule 3(3)[OF False])
    from False have "snd y \<noteq> snd x" by simp
    then have "ids = Suc a1 # rid (snd y) (Suc a1) (map snd zs)" by (simp add: ids_def)
    then have "\<forall>i \<in> set ids. a1 < i"
      using rid_ge[of _ "snd y" "Suc a1" "map snd zs"] by (auto simp: Suc_le_eq)
    from groupby_new[OF this, of x "y # zs"] show ?thesis
      unfolding ids_eq IH using False by simp
  qed
qed

lemma max_crisis_run_runs: "max_crisis_run s = fold run_step (runs s) (0, None, None)"
proof (cases s)
  case Nil
  then show ?thesis by (simp add: max_crisis_run_def run_id_def groupby_def)
next
  case (Cons x xs)
  have "run_id (map snd s) = rid (\<not> snd x) 0 (map snd s)"
    unfolding Cons by (simp add: run_id_Cons)
  then show ?thesis by (simp add: max_crisis_run_def groupby_rid)
qed

lemma runs_props:
  "concat (runs s) = s \<and> chunked (runs s) \<and> (s \<noteq> [] \<longrightarrow> runs s \<noteq> [] \<and> hd (hd (runs s)) = hd s)"
proof (induction s rule: runs.induct)
  case 1
  then show ?case by simp
next
  case (2 x)
  then show ?case by simp
next
  case (3 x y zs)
  show ?case
  proof (cases "snd x = snd y")
    case True
    from 3(1)[OF True] obtain r rs where R: "runs (y # zs) = r # rs"
      and cc: "concat (r # rs) = y # zs" and ch: "chunked (r # rs)" and h: "hd r = y"
      by (cases "runs (y # zs)") auto
    have "runs (x # y # zs) = (x # r) # rs" using True R by simp
    moreover have "chunked ((x # r) # rs)" using ch h True by auto
    moreover have "concat ((x # r) # rs) = x # y # zs" using cc by simp
    ultimately show ?thesis by simp
  next
    case False
    from 3(3)[OF False] have R: "concat (runs (y # zs)) = y # zs" "chunked (runs (y # zs))"
      "runs (y # zs) \<noteq> []" "hd (hd (runs (y # zs))) = y" by simp_all
    have "runs (x # y # zs) = [x] # runs (y # zs)" using False by simp
    moreover have "chunked ([x] # runs (y # zs))" using R False by auto
    ultimately show ?thesis using R(1) by simp
  qed
qed

lemma is_crisis_run_append:
  assumes c: "c \<noteq> []" "\<forall>p \<in> set c. snd p = b" and r: "rest = [] \<or> snd (hd rest) \<noteq> b"
  shows "is_crisis_run (c @ rest) i n \<longleftrightarrow>
     (i = 0 \<and> n = length c \<and> b) \<or> (length c \<le> i \<and> is_crisis_run rest (i - length c) n)"
proof -
  define L where "L = length c"
  have L: "0 < L" using c(1) by (simp add: L_def)
  have inC: "snd ((c @ rest) ! j) = b" if "j < L" for j
    using that c(2) by (simp add: L_def nth_append)
  have inR: "(c @ rest) ! j = rest ! (j - L)" if "L \<le> j" for j
    using that by (simp add: L_def nth_append)
  have rest0: "snd (rest ! 0) \<noteq> b" if "rest \<noteq> []"
    using that r by (simp add: hd_conv_nth)
  have len: "length (c @ rest) = L + length rest" by (simp add: L_def)
  show ?thesis
  proof
    assume R: "is_crisis_run (c @ rest) i n"
    then have n: "0 < n" and bound: "i + n \<le> L + length rest"
      and fl: "\<And>j. j < n \<Longrightarrow> snd ((c @ rest) ! (i + j))"
      and left: "i = 0 \<or> \<not> snd ((c @ rest) ! (i - 1))"
      and right: "i + n = L + length rest \<or> \<not> snd ((c @ rest) ! (i + n))"
      unfolding is_crisis_run_def len by auto
    show "(i = 0 \<and> n = length c \<and> b) \<or> (length c \<le> i \<and> is_crisis_run rest (i - length c) n)"
    proof (cases "i < L")
      case True
      have b: b using fl[of 0] n inC[OF True] by simp
      have i0: "i = 0"
      proof (rule ccontr)
        assume "i \<noteq> 0"
        then have "\<not> snd ((c @ rest) ! (i - 1))" using left by simp
        moreover have "i - 1 < L" using True by simp
        ultimately show False using inC b by blast
      qed
      have "n = L"
      proof (rule ccontr)
        assume ne: "n \<noteq> L"
        show False
        proof (cases "n < L")
          case True
          then have "\<not> snd ((c @ rest) ! n)" using right i0 by simp
          then show False using inC[OF True] b by simp
        next
          case False
          then have gt: "L < n" using ne by simp
          then have "rest \<noteq> []" using bound i0 by auto
          then have "\<not> snd (rest ! 0)" using rest0 b by simp
          moreover have "snd ((c @ rest) ! (i + L))" using fl[OF gt] .
          ultimately show False using inR[of L] i0 by simp
        qed
      qed
      then show ?thesis using i0 b by (simp add: L_def)
    next
      case False
      then have Li: "L \<le> i" by simp
      have "is_crisis_run rest (i - L) n"
        unfolding is_crisis_run_def
      proof (intro conjI allI impI)
        show "0 < n" by (rule n)
        show "i - L + n \<le> length rest" using bound Li by simp
      next
        fix j assume "j < n"
        then have "snd ((c @ rest) ! (i + j))" by (rule fl)
        moreover have "(c @ rest) ! (i + j) = rest ! (i - L + j)"
          using inR[of "i + j"] Li by simp
        ultimately show "snd (rest ! (i - L + j))" by simp
      next
        show "i - L = 0 \<or> \<not> snd (rest ! (i - L - 1))"
        proof (cases "i = L")
          case True
          then show ?thesis by simp
        next
          case False
          then have "L \<le> i - 1" "i \<noteq> 0" using Li by simp_all
          then have "\<not> snd (rest ! (i - 1 - L))" using left inR[of "i - 1"] by simp
          then show ?thesis by simp
        qed
      next
        show "i - L + n = length rest \<or> \<not> snd (rest ! (i - L + n))"
        proof (cases "i + n = L + length rest")
          case True
          then show ?thesis using Li by simp
        next
          case False
          then have "\<not> snd ((c @ rest) ! (i + n))" using right by simp
          moreover have "(c @ rest) ! (i + n) = rest ! (i - L + n)"
            using inR[of "i + n"] Li by simp
          ultimately show ?thesis by simp
        qed
      qed
      then show ?thesis using Li by (simp add: L_def)
    qed
  next
    assume "(i = 0 \<and> n = length c \<and> b) \<or> (length c \<le> i \<and> is_crisis_run rest (i - length c) n)"
    then show "is_crisis_run (c @ rest) i n"
    proof
      assume a: "i = 0 \<and> n = length c \<and> b"
      then have i0: "i = 0" and nL: "n = L" and b: b by (simp_all add: L_def)
      show ?thesis
        unfolding is_crisis_run_def len
      proof (intro conjI allI impI)
        show "0 < n" using nL L by simp
        show "i + n \<le> L + length rest" using i0 nL by simp
        show "i = 0 \<or> \<not> snd ((c @ rest) ! (i - 1))" using i0 by simp
      next
        fix j assume "j < n"
        then show "snd ((c @ rest) ! (i + j))" using inC[of j] i0 nL b by simp
      next
        show "i + n = L + length rest \<or> \<not> snd ((c @ rest) ! (i + n))"
        proof (cases "rest = []")
          case True
          then show ?thesis using i0 nL by simp
        next
          case False
          then have "\<not> snd (rest ! 0)" using rest0 b by simp
          then show ?thesis using inR[of L] i0 nL by simp
        qed
      qed
    next
      assume a: "length c \<le> i \<and> is_crisis_run rest (i - length c) n"
      then have Li: "L \<le> i" and R: "is_crisis_run rest (i - L) n" by (simp_all add: L_def)
      from R have n: "0 < n" and bound: "i - L + n \<le> length rest"
        and fl: "\<And>j. j < n \<Longrightarrow> snd (rest ! (i - L + j))"
        and left: "i - L = 0 \<or> \<not> snd (rest ! (i - L - 1))"
        and right: "i - L + n = length rest \<or> \<not> snd (rest ! (i - L + n))"
        unfolding is_crisis_run_def by auto
      have restne: "rest \<noteq> []" using n bound by auto
      show ?thesis
        unfolding is_crisis_run_def len
      proof (intro conjI allI impI)
        show "0 < n" by (rule n)
        show "i + n \<le> L + length rest" using bound Li by simp
      next
        fix j assume "j < n"
        then have "snd (rest ! (i - L + j))" by (rule fl)
        moreover have "(c @ rest) ! (i + j) = rest ! (i - L + j)"
          using inR[of "i + j"] Li by simp
        ultimately show "snd ((c @ rest) ! (i + j))" by simp
      next
        show "i = 0 \<or> \<not> snd ((c @ rest) ! (i - 1))"
        proof (cases "i = L")
          case True
          have "snd (rest ! 0)" using fl[of 0] n True by simp
          then have "\<not> b" using rest0[OF restne] by auto
          moreover have "snd ((c @ rest) ! (L - 1)) = b" using inC[of "L - 1"] L by simp
          ultimately show ?thesis using True by simp
        next
          case False
          then have "L \<le> i - 1" "i - L \<noteq> 0" using Li by simp_all
          then have "\<not> snd (rest ! (i - L - 1))" using left by simp
          moreover have "(c @ rest) ! (i - 1) = rest ! (i - L - 1)"
            using inR[of "i - 1"] \<open>L \<le> i - 1\<close> by simp
          ultimately show ?thesis by simp
        qed
      next
        show "i + n = L + length rest \<or> \<not> snd ((c @ rest) ! (i + n))"
        proof (cases "i - L + n = length rest")
          case True
          then have "i + n = L + length rest" using Li by linarith
          then show ?thesis by simp
        next
          case False
          then have "\<not> snd (rest ! (i - L + n))" using right by simp
          moreover have "(c @ rest) ! (i + n) = rest ! (i - L + n)"
            using inR[of "i + n"] Li by simp
          ultimately show ?thesis by simp
        qed
      qed
    qed
  qed
qed

lemma chunked_ok: "chunked cs \<Longrightarrow> c \<in> set cs \<Longrightarrow> c \<noteq> [] \<and> (\<forall>p \<in> set c. snd p = snd (hd c))"
  by (induction cs) auto

lemma no_run_Nil: "\<not> is_crisis_run [] i n"
proof
  assume "is_crisis_run [] i n"
  then have "0 < n \<and> i + n \<le> length ([] :: (date \<times> bool) list)"
    unfolding is_crisis_run_def by blast
  then show False by auto
qed

lemma runs_index:
  assumes "chunked cs"
  shows "is_crisis_run (concat cs) i n \<longleftrightarrow>
     (\<exists>k < length cs. snd (hd (cs ! k)) \<and> i = length (concat (take k cs)) \<and> n = length (cs ! k))"
  using assms
proof (induction cs arbitrary: i)
  case Nil
  then show ?case by (simp add: no_run_Nil)
next
  case (Cons c cs)
  define b where "b = snd (hd c)"
  from Cons.prems[unfolded chunked.simps] have c: "c \<noteq> []" "\<forall>p \<in> set c. snd p = b"
    and alt: "cs = [] \<or> snd (hd (hd cs)) \<noteq> b" and ch: "chunked cs"
    unfolding b_def by blast+
  have rest: "concat cs = [] \<or> snd (hd (concat cs)) \<noteq> b"
  proof (cases cs)
    case Nil
    then show ?thesis by simp
  next
    case (Cons d ds)
    then have "d \<noteq> []" using ch by simp
    then have "hd (concat cs) = hd d" using Cons by simp
    then show ?thesis using alt Cons by simp
  qed
  have IH: "is_crisis_run (concat cs) j n \<longleftrightarrow>
     (\<exists>k < length cs. snd (hd (cs ! k)) \<and> j = length (concat (take k cs)) \<and> n = length (cs ! k))" for j
    by (rule Cons.IH[OF ch])
  have ar: "(length c \<le> i \<and> i - length c = x) \<longleftrightarrow> i = length c + x" for x
    by linarith
  have "is_crisis_run (concat (c # cs)) i n \<longleftrightarrow>
     (i = 0 \<and> n = length c \<and> b) \<or> (length c \<le> i \<and> is_crisis_run (concat cs) (i - length c) n)"
    using is_crisis_run_append[OF c rest] by simp
  also have "\<dots> \<longleftrightarrow> (i = 0 \<and> n = length c \<and> b)
     \<or> (\<exists>k < length cs. snd (hd (cs ! k))
           \<and> (length c \<le> i \<and> i - length c = length (concat (take k cs)))
           \<and> n = length (cs ! k))"
    unfolding IH by blast
  also have "\<dots> \<longleftrightarrow> (i = 0 \<and> n = length c \<and> b)
     \<or> (\<exists>k < length cs. snd (hd (cs ! k)) \<and> i = length c + length (concat (take k cs))
           \<and> n = length (cs ! k))"
    by (simp only: ar)
  also have "\<dots> \<longleftrightarrow> (\<exists>k < length (c # cs). snd (hd ((c # cs) ! k))
       \<and> i = length (concat (take k (c # cs))) \<and> n = length ((c # cs) ! k))"
    (is "?A \<or> ?B \<longleftrightarrow> ?C")
  proof
    assume "?A \<or> ?B"
    then show ?C
    proof
      assume ?A
      then have "0 < length (c # cs) \<and> snd (hd ((c # cs) ! 0))
        \<and> i = length (concat (take 0 (c # cs))) \<and> n = length ((c # cs) ! 0)"
        by (simp add: b_def)
      then show ?C by blast
    next
      assume ?B
      then obtain k where "k < length cs" "snd (hd (cs ! k))"
        "i = length c + length (concat (take k cs))" "n = length (cs ! k)" by blast
      then have "Suc k < length (c # cs) \<and> snd (hd ((c # cs) ! Suc k))
        \<and> i = length (concat (take (Suc k) (c # cs))) \<and> n = length ((c # cs) ! Suc k)"
        by simp
      then show ?C by blast
    qed
  next
    assume ?C
    then obtain k where k: "k < length (c # cs)" "snd (hd ((c # cs) ! k))"
      "i = length (concat (take k (c # cs)))" "n = length ((c # cs) ! k)" by blast
    show "?A \<or> ?B"
    proof (cases k)
      case 0
      with k show ?thesis by (simp add: b_def)
    next
      case (Suc k')
      with k have "k' < length cs \<and> snd (hd (cs ! k'))
        \<and> i = length c + length (concat (take k' cs)) \<and> n = length (cs ! k')" by simp
      then show ?thesis by blast
    qed
  qed
  finally show ?case .
qed

lemma bestI: "first_longest cs k \<Longrightarrow> st = chunk_state (cs ! k) \<Longrightarrow> best cs st"
  unfolding best_def first_longest_def by auto

lemma crisis_chunk_snoc:
  "crisis_chunk (cs @ [c]) k \<longleftrightarrow> crisis_chunk cs k \<or> (k = length cs \<and> snd (hd c))"
  by (auto simp: crisis_chunk_def nth_append less_Suc_eq)

lemma crisis_chunk_lt: "crisis_chunk cs k \<Longrightarrow> k < length cs"
  by (simp add: crisis_chunk_def)

lemma run_step_skip: "c \<noteq> [] \<Longrightarrow> \<not> snd (hd c) \<Longrightarrow> run_step c st = st"
  by (cases c) (simp_all add: run_step_def)

lemma run_step_crisis:
  assumes "c \<noteq> []" "\<forall>p \<in> set c. snd p = snd (hd c)" "snd (hd c)"
  shows "run_step c st = (if length c > fst st then chunk_state c else st)"
proof -
  have "filter snd c = c" using assms(2,3) by (simp add: filter_id_conv)
  then show ?thesis using assms(1,3)
    by (cases c) (simp_all add: run_step_def chunk_state_def Let_def)
qed

lemma best_snoc:
  assumes b: "best cs st" and c: "c \<noteq> []" "\<forall>p \<in> set c. snd p = snd (hd c)"
  shows "best (cs @ [c]) (run_step c st)"
proof (cases "snd (hd c)")
  case False
  have cc: "crisis_chunk (cs @ [c]) k \<longleftrightarrow> crisis_chunk cs k" for k
    using False by (simp add: crisis_chunk_snoc)
  have nth: "crisis_chunk cs k \<Longrightarrow> (cs @ [c]) ! k = cs ! k" for k
    by (simp add: crisis_chunk_def nth_append)
  have fl: "first_longest (cs @ [c]) k \<longleftrightarrow> first_longest cs k" for k
    unfolding first_longest_def cc using nth by auto
  have "best (cs @ [c]) st"
  proof (cases "\<exists>k. crisis_chunk cs k")
    case True
    then obtain k where k: "first_longest cs k" "st = chunk_state (cs ! k)"
      using b by (auto simp: best_def)
    then have "crisis_chunk cs k" by (simp add: first_longest_def)
    then have "first_longest (cs @ [c]) k \<and> st = chunk_state ((cs @ [c]) ! k)"
      using k nth fl by simp
    then show ?thesis by (blast intro: bestI)
  next
    case False
    then have "st = (0, None, None)" using b by (simp add: best_def)
    moreover have "\<not> (\<exists>k. crisis_chunk (cs @ [c]) k)" using False cc by simp
    ultimately show ?thesis unfolding best_def by (simp only: if_False)
  qed
  then show ?thesis using run_step_skip[OF c(1) False] by simp
next
  case True
  note rs = run_step_crisis[OF c True]
  have nth: "k < length cs \<Longrightarrow> (cs @ [c]) ! k = cs ! k" for k
    by (simp add: nth_append)
  have last: "(cs @ [c]) ! length cs = c" by simp
  have new: "crisis_chunk (cs @ [c]) (length cs)" using True by (simp add: crisis_chunk_snoc)
  have lenc: "0 < length c" using c(1) by simp
  show ?thesis
  proof (cases "\<exists>k. crisis_chunk cs k")
    case False
    then have st: "st = (0, None, None)" using b by (simp add: best_def)
    have only: "crisis_chunk (cs @ [c]) k \<longleftrightarrow> k = length cs" for k
      using False True by (auto simp: crisis_chunk_snoc)
    have "first_longest (cs @ [c]) (length cs)"
      unfolding first_longest_def only by simp
    moreover have "run_step c st = chunk_state ((cs @ [c]) ! length cs)"
      using rs[of st] st lenc by simp
    ultimately show ?thesis by (rule bestI)
  next
    case ex: True
    then obtain k where k: "first_longest cs k" "st = chunk_state (cs ! k)"
      using b by (auto simp: best_def)
    have kl: "k < length cs" using k(1) by (simp add: first_longest_def crisis_chunk_def)
    have d: "fst st = length (cs ! k)" using k(2) by (simp add: chunk_state_def)
    have old: "crisis_chunk cs k' \<Longrightarrow> length (cs ! k') \<le> length (cs ! k)
        \<and> (k' < k \<longrightarrow> length (cs ! k') < length (cs ! k))" for k'
      using k(1) by (simp add: first_longest_def)
    show ?thesis
    proof (cases "length c > length (cs ! k)")
      case gt: True
      have "first_longest (cs @ [c]) (length cs)"
        unfolding first_longest_def
      proof (intro conjI allI impI)
        show "crisis_chunk (cs @ [c]) (length cs)" by (rule new)
      next
        fix k' assume a: "crisis_chunk (cs @ [c]) k'"
        show "length ((cs @ [c]) ! k') \<le> length ((cs @ [c]) ! length cs)"
        proof (cases "k' = length cs")
          case True
          then show ?thesis by simp
        next
          case False
          then have "crisis_chunk cs k'" using a by (simp add: crisis_chunk_snoc)
          then show ?thesis using old[of k'] gt nth[of k'] crisis_chunk_lt[of cs k'] by simp
        qed
      next
        fix k' assume a: "crisis_chunk (cs @ [c]) k'" "k' < length cs"
        then have "crisis_chunk cs k'" by (simp add: crisis_chunk_snoc)
        then show "length ((cs @ [c]) ! k') < length ((cs @ [c]) ! length cs)"
          using old[of k'] gt nth[OF a(2)] by simp
      qed
      moreover have "run_step c st = chunk_state ((cs @ [c]) ! length cs)"
        using rs[of st] d gt by simp
      ultimately show ?thesis by (rule bestI)
    next
      case le: False
      have "first_longest (cs @ [c]) k"
        unfolding first_longest_def
      proof (intro conjI allI impI)
        show "crisis_chunk (cs @ [c]) k"
          using k(1) by (simp add: first_longest_def crisis_chunk_snoc)
      next
        fix k' assume a: "crisis_chunk (cs @ [c]) k'"
        show "length ((cs @ [c]) ! k') \<le> length ((cs @ [c]) ! k)"
        proof (cases "k' = length cs")
          case True
          then show ?thesis using le nth[OF kl] by simp
        next
          case False
          then have "crisis_chunk cs k'" using a by (simp add: crisis_chunk_snoc)
          then show ?thesis using old[of k'] nth[OF kl] nth[of k'] crisis_chunk_lt[of cs k'] by simp
        qed
      next
        fix k' assume a: "crisis_chunk (cs @ [c]) k'" "k' < k"
        then have "k' < length cs" using kl by simp
        then have "crisis_chunk cs k'" using a(1) by (simp add: crisis_chunk_snoc)
        then show "length ((cs @ [c]) ! k') < length ((cs @ [c]) ! k)"
          using old[of k'] a(2) nth[OF kl] nth[OF \<open>k' < length cs\<close>] by simp
      qed
      moreover have "run_step c st = chunk_state ((cs @ [c]) ! k)"
        using rs[of st] d le k(2) nth[OF kl] by simp
      ultimately show ?thesis by (rule bestI)
    qed
  qed
qed

lemma best_fold:
  assumes "\<forall>c \<in> set cs. c \<noteq> [] \<and> (\<forall>p \<in> set c. snd p = snd (hd c))"
  shows "best cs (fold run_step cs (0, None, None))"
  using assms
proof (induction cs rule: rev_induct)
  case Nil
  then show ?case by (simp add: best_def crisis_chunk_def)
next
  case (snoc c cs)
  then have "best cs (fold run_step cs (0, None, None))" by simp
  from best_snoc[OF this, of c] snoc.prems show ?case by simp
qed

lemma offset_mono:
  assumes "k \<le> k'"
  shows "length (concat (take k cs)) \<le> length (concat (take k' cs))"
proof -
  have "take k' cs = take k cs @ take (k' - k) (drop k cs)"
    using assms by (metis le_add_diff_inverse take_add)
  then show ?thesis by simp
qed

lemma concat_nth_offset:
  assumes "k < length cs" "j < length (cs ! k)"
  shows "concat cs ! (length (concat (take k cs)) + j) = cs ! k ! j"
proof -
  have "cs = take k cs @ cs ! k # drop (Suc k) cs"
    using assms(1) by (rule id_take_nth_drop)
  then have "concat cs = concat (take k cs) @ cs ! k @ concat (drop (Suc k) cs)"
    by (metis concat.simps(2) concat_append)
  then show ?thesis using assms(2) by (simp add: nth_append)
qed

lemma crisis_day_iff:
  assumes "chunked cs"
  shows "(\<exists>p \<in> set (concat cs). snd p) \<longleftrightarrow> (\<exists>k. crisis_chunk cs k)"
proof
  assume "\<exists>p \<in> set (concat cs). snd p"
  then obtain p c where p: "p \<in> set c" "c \<in> set cs" "snd p" by auto
  from chunked_ok[OF assms p(2)] p(1,3) have "snd (hd c)" by blast
  moreover obtain k where "k < length cs" "cs ! k = c" using p(2) by (auto simp: in_set_conv_nth)
  ultimately have "crisis_chunk cs k" by (simp add: crisis_chunk_def)
  then show "\<exists>k. crisis_chunk cs k" ..
next
  assume "\<exists>k. crisis_chunk cs k"
  then obtain k where k: "k < length cs" "snd (hd (cs ! k))" by (auto simp: crisis_chunk_def)
  then have "cs ! k \<in> set cs" by simp
  moreover from chunked_ok[OF assms this] have "hd (cs ! k) \<in> set (cs ! k)" by simp
  ultimately have "hd (cs ! k) \<in> set (concat cs)" by auto
  with k(2) show "\<exists>p \<in> set (concat cs). snd p" by blast
qed

lemma max_crisis_run_spec:
  assumes m: "max_crisis_run s = (d, rs, re)"
  shows "if \<exists>p \<in> set s. snd p
         then \<exists>i. is_crisis_run s i d \<and> rs = Some (fst (s ! i))
                \<and> re = Some (fst (s ! (i + d - 1)))
                \<and> (\<forall>i' n'. is_crisis_run s i' n' \<longrightarrow> n' \<le> d \<and> (i' < i \<longrightarrow> n' < d))
         else d = 0 \<and> rs = None \<and> re = None"
proof -
  define cs where "cs = runs s"
  have cc: "concat cs = s" and ch: "chunked cs" using runs_props[of s] by (simp_all add: cs_def)
  have ok: "\<forall>c \<in> set cs. c \<noteq> [] \<and> (\<forall>p \<in> set c. snd p = snd (hd c))"
    using chunked_ok[OF ch] by blast
  have b: "best cs (d, rs, re)"
    using best_fold[OF ok] m by (simp add: max_crisis_run_runs cs_def)
  have day: "(\<exists>p \<in> set s. snd p) \<longleftrightarrow> (\<exists>k. crisis_chunk cs k)"
    using crisis_day_iff[OF ch] by (simp only: cc)
  show ?thesis
  proof (cases "\<exists>p \<in> set s. snd p")
    case False
    then have "(d, rs, re) = (0, None, None)" using b day by (simp add: best_def)
    then show ?thesis using False by simp
  next
    case True
    then obtain k where k: "first_longest cs k" "(d, rs, re) = chunk_state (cs ! k)"
      using b day by (auto simp: best_def)
    have kc: "crisis_chunk cs k" using k(1) by (simp add: first_longest_def)
    then have kl: "k < length cs" and kf: "snd (hd (cs ! k))" by (simp_all add: crisis_chunk_def)
    have ne: "cs ! k \<noteq> []" using ok kl by simp
    have d: "d = length (cs ! k)" and rs: "rs = Some (fst (hd (cs ! k)))"
      and re: "re = Some (fst (last (cs ! k)))"
      using k(2) by (simp_all add: chunk_state_def)
    define i where "i = length (concat (take k cs))"
    have run: "is_crisis_run s i d"
      using runs_index[OF ch, of i d] kl kf d unfolding cc i_def by blast
    have "s ! (i + 0) = cs ! k ! 0"
      using concat_nth_offset[OF kl, of 0] ne unfolding cc i_def by simp
    then have first: "s ! i = hd (cs ! k)" using ne by (simp add: hd_conv_nth)
    have "s ! (i + (d - 1)) = cs ! k ! (d - 1)"
      using concat_nth_offset[OF kl, of "d - 1"] ne d unfolding cc i_def by simp
    moreover have "0 < d" using ne d by simp
    then have "i + (d - 1) = i + d - 1" by linarith
    ultimately have lastd: "s ! (i + d - 1) = last (cs ! k)"
      using ne d by (simp add: last_conv_nth)
    have others: "n' \<le> d \<and> (i' < i \<longrightarrow> n' < d)" if "is_crisis_run s i' n'" for i' n'
    proof -
      from that obtain k' where k': "k' < length cs" "snd (hd (cs ! k'))"
        "i' = length (concat (take k' cs))" "n' = length (cs ! k')"
        using runs_index[OF ch, of i' n'] unfolding cc by blast
      then have c': "crisis_chunk cs k'" by (simp add: crisis_chunk_def)
      with k(1) have le: "length (cs ! k') \<le> length (cs ! k)"
        and lt: "k' < k \<longrightarrow> length (cs ! k') < length (cs ! k)"
        by (simp_all add: first_longest_def)
      have "k' < k" if "i' < i"
      proof (rule ccontr)
        assume "\<not> k' < k"
        then have "k \<le> k'" by simp
        from offset_mono[OF this, of cs] have "i \<le> i'" by (simp add: i_def k'(3))
        with that show False by simp
      qed
      with le lt show ?thesis by (auto simp: d k'(4))
    qed
    have "is_crisis_run s i d \<and> rs = Some (fst (s ! i)) \<and> re = Some (fst (s ! (i + d - 1)))
        \<and> (\<forall>i' n'. is_crisis_run s i' n' \<longrightarrow> n' \<le> d \<and> (i' < i \<longrightarrow> n' < d))"
      using run rs re first lastd others by simp
    then show ?thesis using True by auto
  qed
qed

lemma max_crisis_run_Nil: "max_crisis_run [] = (0, None, None)"
  by (simp add: max_crisis_run_runs)

lemma episode_row_run:
  "(max_crisis_run_days (episode_row regimes target ros ths w),
    max_crisis_run_start (episode_row regimes target ros ths w),
    max_crisis_run_end (episode_row regimes target ros ths w))
   = max_crisis_run (is_crisis_in regimes w target)"
proof (cases "is_crisis_in regimes w target = []")
  case True
  then show ?thesis by (simp add: episode_row_def max_crisis_run_Nil)
next
  case False
  obtain d rs re where m: "max_crisis_run (is_crisis_in regimes w target) = (d, rs, re)"
    by (cases "max_crisis_run (is_crisis_in regimes w target)") auto
  then show ?thesis using False by (simp add: episode_row_def Let_def)
qed

lemma is_crisis_in_flags:
  "is_crisis_in regimes w target
   = map (\<lambda>(d, l). (d, (case l of None \<Rightarrow> ''Transition'' | Some x \<Rightarrow> x) = target))
       (filter (\<lambda>(d, l). win_start w \<le> d \<and> d \<le> win_end w) regimes)"
  by (simp add: is_crisis_in_def window_rows_def normalize_regime_def filter_map comp_def
      split_def)

text \<open>
  Claim C8. For every window of the scorecard, let \<open>s\<close> be the entries of the label series
  whose date lies between the start and the end of the window (both included), in the order
  of the series, each with the flag that its label (Transition for a missing one) is the
  target. If some day of \<open>s\<close> is a crisis day, the reported length is the length of a
  maximal run of consecutive crisis days of \<open>s\<close> starting at some position \<open>i\<close>, the
  reported start and end are the dates of its first and last day, no maximal crisis run of
  \<open>s\<close> is longer, and every maximal crisis run that starts before \<open>i\<close> is strictly shorter
  (so among runs of the greatest length the earliest is reported). With no crisis day in
  \<open>s\<close> the length is 0 and both dates are missing. The dates are columns of the table
  written to the CSV file; the returned frame keeps the length.
\<close>

theorem scorecard_reports_first_longest_run:
  assumes k: "k < length windows"
    and s: "s = map (\<lambda>(d, l). (d, (case l of None \<Rightarrow> ''Transition'' | Some x \<Rightarrow> x) = target))
                 (filter (\<lambda>(d, l). win_start (windows ! k) \<le> d \<and> d \<le> win_end (windows ! k))
                    regimes)"
    and r: "r = stress_window_scorecard regimes windows target risk_off_score score_threshold ! k"
  shows "if \<exists>p \<in> set s. snd p
         then \<exists>i. is_crisis_run s i (max_crisis_run_days r)
                \<and> max_crisis_run_start r = Some (fst (s ! i))
                \<and> max_crisis_run_end r = Some (fst (s ! (i + max_crisis_run_days r - 1)))
                \<and> (\<forall>i' n'. is_crisis_run s i' n' \<longrightarrow>
                      n' \<le> max_crisis_run_days r \<and> (i' < i \<longrightarrow> n' < max_crisis_run_days r))
         else max_crisis_run_days r = 0 \<and> max_crisis_run_start r = None
              \<and> max_crisis_run_end r = None"
proof -
  have s': "s = is_crisis_in regimes (windows ! k) target"
    unfolding s by (rule is_crisis_in_flags[symmetric])
  have "r = episode_row regimes target risk_off_score score_threshold (windows ! k)"
    using k r by (simp add: stress_window_scorecard_def)
  then have "max_crisis_run s
      = (max_crisis_run_days r, max_crisis_run_start r, max_crisis_run_end r)"
    using episode_row_run[of regimes target risk_off_score score_threshold "windows ! k"] s'
    by simp
  then show ?thesis by (rule max_crisis_run_spec)
qed

text \<open>
  The example: the flags of the five days inside the window, and the row of the scorecard.
  The longest crisis run of the whole series, days 7 to 11, is not what is reported.
\<close>

lemma tied_runs_flags:
  "map (\<lambda>(d, l). (d, (case l of None \<Rightarrow> ''Transition'' | Some x \<Rightarrow> x) = ''Risk-off / crisis''))
     (filter (\<lambda>(d, l). win_start ([tie_window] ! 0) \<le> d \<and> d \<le> win_end ([tie_window] ! 0))
        tied_runs)
   = [(10, True), (11, True), (12, False), (13, True), (14, True)]"
  by code_simp

lemma tied_row_fields:
  "max_crisis_run_days tied_row = 2 \<and> max_crisis_run_start tied_row = Some 10
   \<and> max_crisis_run_end tied_row = Some 11"
  by code_simp

theorem scorecard_reports_first_longest_run_witness:
  "(0::nat) < length [tie_window]
   \<and> map (\<lambda>(d, l). (d, (case l of None \<Rightarrow> ''Transition'' | Some x \<Rightarrow> x) = ''Risk-off / crisis''))
        (filter (\<lambda>(d, l). win_start ([tie_window] ! 0) \<le> d \<and> d \<le> win_end ([tie_window] ! 0))
           tied_runs)
       = [(10, True), (11, True), (12, False), (13, True), (14, True)]
   \<and> (\<exists>p \<in> set [(10::int, True), (11, True), (12, False), (13, True), (14, True)]. snd p)
   \<and> (\<exists>i. is_crisis_run [(10, True), (11, True), (12, False), (13, True), (14, True)] i 2
          \<and> Some 10 = Some (fst ([(10::int, True), (11, True), (12, False), (13, True), (14, True)] ! i))
          \<and> Some 11 = Some (fst ([(10::int, True), (11, True), (12, False), (13, True), (14, True)]
                                  ! (i + 2 - 1)))
          \<and> (\<forall>i' n'. is_crisis_run [(10, True), (11, True), (12, False), (13, True), (14, True)] i' n'
                \<longrightarrow> n' \<le> 2 \<and> (i' < i \<longrightarrow> n' < 2)))
   \<and> max_crisis_run_days tied_row = 2 \<and> max_crisis_run_start tied_row = Some 10
   \<and> max_crisis_run_end tied_row = Some 11"
proof -
  have k: "(0::nat) < length [tie_window]" by simp
  have ex: "\<exists>p \<in> set [(10::int, True), (11, True), (12, False), (13, True), (14, True)]. snd p"
    by simp
  from scorecard_reports_first_longest_run[OF k tied_runs_flags[symmetric] tied_row_def] ex
  have "\<exists>i. is_crisis_run [(10, True), (11, True), (12, False), (13, True), (14, True)] i
              (max_crisis_run_days tied_row)
          \<and> max_crisis_run_start tied_row
              = Some (fst ([(10::int, True), (11, True), (12, False), (13, True), (14, True)] ! i))
          \<and> max_crisis_run_end tied_row
              = Some (fst ([(10::int, True), (11, True), (12, False), (13, True), (14, True)]
                  ! (i + max_crisis_run_days tied_row - 1)))
          \<and> (\<forall>i' n'. is_crisis_run [(10, True), (11, True), (12, False), (13, True), (14, True)] i' n'
                \<longrightarrow> n' \<le> max_crisis_run_days tied_row
                  \<and> (i' < i \<longrightarrow> n' < max_crisis_run_days tied_row))"
    by (simp only: if_P)
  then show ?thesis using k ex tied_row_fields tied_runs_flags by simp
qed

end
